theory Spec2Isabelle
  imports Complex_Main "HOL-Library.Word" "HOL-Library.List_Lexorder" "HOL-Library.Multiset"
begin

unbundle bit_operations_syntax

chapter \<open>The model\<close>

section \<open>Strings and numbers of the host language\<close>

text \<open>
  A string of the source language is a sequence of 16-bit code units (UTF-16); its
  \<open>length\<close> counts code units and the default comparison of two strings compares them
  code unit by code unit. A supplementary-plane character is a pair of surrogate code
  units.
\<close>

type_synonym code_unit = "16 word"

type_synonym jsstring = "code_unit list"

definition ascii :: "string \<Rightarrow> jsstring" where
  "ascii s = map of_char s"

definition is_high_surrogate :: "code_unit \<Rightarrow> bool" where
  "is_high_surrogate u \<longleftrightarrow> 0xD800 \<le> u \<and> u \<le> 0xDBFF"

definition is_low_surrogate :: "code_unit \<Rightarrow> bool" where
  "is_low_surrogate u \<longleftrightarrow> 0xDC00 \<le> u \<and> u \<le> 0xDFFF"

definition is_surrogate :: "code_unit \<Rightarrow> bool" where
  "is_surrogate u \<longleftrightarrow> 0xD800 \<le> u \<and> u \<le> 0xDFFF"

text \<open>
  The code points of a string: a high surrogate followed by a low surrogate is one
  supplementary-plane code point, every other code unit stands for itself.
\<close>

fun code_points :: "jsstring \<Rightarrow> nat list" where
  "code_points [] = []"
| "code_points [u] = [unat u]"
| "code_points (u # l # us) =
     (if is_high_surrogate u \<and> is_low_surrogate l
      then (0x10000 + (unat u - 0xD800) * 0x400 + (unat l - 0xDC00)) # code_points us
      else unat u # code_points (l # us))"

text \<open>
  The comparison \<open>x < y\<close> of two strings, which \<open>Array.prototype.sort\<close> uses when it
  is called without a comparator: lexicographic on code units, a proper prefix first.
\<close>

fun string_less :: "jsstring \<Rightarrow> jsstring \<Rightarrow> bool" where
  "string_less [] [] = False"
| "string_less [] (y # ys) = True"
| "string_less (x # xs) [] = False"
| "string_less (x # xs) (y # ys) = (x < y \<or> (x = y \<and> string_less xs ys))"

definition Array_sort :: "jsstring list \<Rightarrow> jsstring list" where
  "Array_sort keys = sort keys"

text \<open>
  A number is an IEEE 754 double. A finite double is a sign, a significand \<open>m\<close> below
  \<open>2 ^ 53\<close> and an exponent \<open>e\<close> from \<open>-1074\<close> to \<open>971\<close>; it is the number
  \<open>m * 2 ^ e\<close>, negated when the sign is set. A normal number has \<open>2 ^ 52 \<le> m\<close>; the
  subnormal numbers and the two zeros have \<open>e = -1074\<close>. Every finite double is written
  in exactly one way: 1 is \<open>Finite False (2 ^ 52) (-52)\<close>, 1.5 is
  \<open>Finite False (3 * 2 ^ 51) (-52)\<close>, \<open>2 ^ 60\<close> is \<open>Finite False (2 ^ 52) 8\<close>, and
  \<open>Finite True 0 (-1074)\<close> is the negative zero.
\<close>

datatype jsnumber = Finite bool nat int | NaN | PosInfinity | NegInfinity

definition is_double :: "nat \<Rightarrow> int \<Rightarrow> bool" where
  "is_double m e \<longleftrightarrow> m < 2 ^ 53 \<and> - 1074 \<le> e \<and> e \<le> 971 \<and> (2 ^ 52 \<le> m \<or> e = - 1074)"

definition double_value :: "nat \<Rightarrow> int \<Rightarrow> rat" where
  "double_value m e = of_nat m * 2 powi e"

abbreviation double_1 :: jsnumber where
  "double_1 \<equiv> Finite False (2 ^ 52) (- 52)"

abbreviation double_2 :: jsnumber where
  "double_2 \<equiv> Finite False (2 ^ 52) (- 51)"

text \<open>
  The rationals that round to the positive double \<open>m * 2 ^ e\<close>, to the nearest double and
  on a tie to the one with the even significand: those between the midpoints to the two
  neighbouring doubles, the midpoints included when \<open>m\<close> is even. The double below a
  power of two is half as far as the double above it.
\<close>

definition round_lower :: "nat \<Rightarrow> int \<Rightarrow> rat" where
  "round_lower m e =
     (if m = 2 ^ 52 \<and> - 1074 < e then (4 * of_nat m - 1) * 2 powi (e - 2)
      else (2 * of_nat m - 1) * 2 powi (e - 1))"

definition round_upper :: "nat \<Rightarrow> int \<Rightarrow> rat" where
  "round_upper m e = (2 * of_nat m + 1) * 2 powi (e - 1)"

definition rounds_to :: "rat \<Rightarrow> nat \<Rightarrow> int \<Rightarrow> bool" where
  "rounds_to v m e \<longleftrightarrow>
     (round_lower m e < v \<and> v < round_upper m e) \<or>
     (even m \<and> (v = round_lower m e \<or> v = round_upper m e))"

text \<open>
  \<open>Number.prototype.toString\<close> writes a positive double \<open>x\<close> with the digits of the
  integer \<open>s\<close>, where \<open>n\<close>, \<open>k\<close> and \<open>s\<close> are such that \<open>s\<close> has \<open>k\<close> digits,
  \<open>s * 10 ^ (n - k)\<close> rounds to \<open>x\<close>, and \<open>k\<close> is as small as possible; of several such
  \<open>s\<close> it takes the one that makes \<open>s * 10 ^ (n - k)\<close> closest to \<open>x\<close>.

  Here \<open>decimal s p\<close> is \<open>s * 10 ^ p\<close> and \<open>decimal_exponent x\<close> is the \<open>n\<close> with
  \<open>10 ^ (n - 1) \<le> x < 10 ^ n\<close>. For \<open>k = 1, 2, ...\<close> the two multiples of
  \<open>10 ^ (n - k)\<close> around \<open>x\<close> are tried, until one of them rounds to \<open>x\<close>; at the latest
  this is \<open>x\<close> itself, written out in full (\<open>exact_decimal\<close>). The multiple above \<open>x\<close>
  may be \<open>10 ^ n\<close>, whose digits are those of 1: \<open>strip_zeros\<close> drops the zeros at the
  end of \<open>s\<close>.
\<close>

definition decimal :: "nat \<Rightarrow> int \<Rightarrow> rat" where
  "decimal s p = of_nat s * 10 powi p"

function decimal_down :: "rat \<Rightarrow> int \<Rightarrow> int" where
  "decimal_down x n = (if n \<le> - 400 \<or> 10 powi (n - 1) \<le> x then n else decimal_down x (n - 1))"
  by pat_completeness auto
termination
  by (relation "measure (\<lambda>(x, n). nat (n + 400))") auto

function decimal_up :: "rat \<Rightarrow> int \<Rightarrow> int" where
  "decimal_up x n = (if 400 \<le> n \<or> x < 10 powi n then n else decimal_up x (n + 1))"
  by pat_completeness auto
termination
  by (relation "measure (\<lambda>(x, n). nat (400 - n))") auto

declare decimal_down.simps [simp del] decimal_up.simps [simp del]

definition decimal_exponent :: "rat \<Rightarrow> int" where
  "decimal_exponent x = decimal_up x (decimal_down x 0)"

definition nearest :: "nat \<Rightarrow> int \<Rightarrow> int \<Rightarrow> nat option" where
  "nearest m e p =
     (let x = double_value m e;
          s = (m * 2 ^ nat e * 10 ^ nat (- p)) div (2 ^ nat (- e) * 10 ^ nat p);
          below = rounds_to (decimal s p) m e;
          above = rounds_to (decimal (s + 1) p) m e
      in if below \<and> above then
           (if x - decimal s p < decimal (s + 1) p - x then Some s
            else if decimal (s + 1) p - x < x - decimal s p then Some (s + 1)
            else if even s then Some s else Some (s + 1))
         else if below then Some s
         else if above then Some (s + 1)
         else None)"

definition exact_decimal :: "nat \<Rightarrow> int \<Rightarrow> nat \<times> int" where
  "exact_decimal m e = (if 0 \<le> e then (m * 2 ^ nat e, 0) else (m * 5 ^ nat (- e), e))"

function shortest_from :: "nat \<Rightarrow> int \<Rightarrow> int \<Rightarrow> int \<Rightarrow> nat \<times> int" where
  "shortest_from m e n k =
     (if n - min e 0 < k then exact_decimal m e
      else if nearest m e (n - k) = None then shortest_from m e n (k + 1)
      else (the (nearest m e (n - k)), n - k))"
  by pat_completeness auto
termination
  by (relation "measure (\<lambda>(m, e, n, k). nat (n - min e 0 + 1 - k))") auto

declare shortest_from.simps [simp del]

function strip_zeros :: "nat \<Rightarrow> int \<Rightarrow> nat \<times> int" where
  "strip_zeros s p = (if 0 < s \<and> s mod 10 = 0 then strip_zeros (s div 10) (p + 1) else (s, p))"
  by pat_completeness auto
termination
  by (relation "measure (\<lambda>(s, p). s)") auto

declare strip_zeros.simps [simp del]

definition shortest_decimal :: "nat \<Rightarrow> int \<Rightarrow> nat \<times> int" where
  "shortest_decimal m e =
     (case shortest_from m e (decimal_exponent (double_value m e)) 1 of (s, p) \<Rightarrow> strip_zeros s p)"

definition digit_unit :: "nat \<Rightarrow> code_unit" where
  "digit_unit d = 0x30 + of_nat d"

function decimal_digits :: "nat \<Rightarrow> jsstring" where
  "decimal_digits n =
     (if n < 10 then [digit_unit n] else decimal_digits (n div 10) @ [digit_unit (n mod 10)])"
  by pat_completeness auto
termination
  by (relation "measure id") auto

declare decimal_digits.simps [simp del]

text \<open>
  The \<open>k\<close> digits are laid out by the size of \<open>n\<close>: followed by zeros when
  \<open>k \<le> n \<le> 21\<close>, with a point after the first \<open>n\<close> of them when \<open>0 < n \<le> 21\<close>, after
  \<open>0.\<close> and zeros when \<open>-6 < n \<le> 0\<close>, and otherwise with a point after the first digit
  and the exponent \<open>n - 1\<close> with its sign. Both zeros are written \<open>0\<close>, a negative
  number with a minus sign in front.
\<close>

definition exponent_part :: "int \<Rightarrow> jsstring" where
  "exponent_part n =
     ascii ''e'' @ (if n - 1 < 0 then ascii ''-'' else ascii ''+'') @ decimal_digits (nat \<bar>n - 1\<bar>)"

definition number_format :: "jsstring \<Rightarrow> int \<Rightarrow> jsstring" where
  "number_format digits n =
     (let k = int (length digits) in
      if k \<le> n \<and> n \<le> 21 then digits @ replicate (nat (n - k)) 0x30
      else if 0 < n \<and> n \<le> 21 then take (nat n) digits @ ascii ''.'' @ drop (nat n) digits
      else if - 6 < n \<and> n \<le> 0 then ascii ''0.'' @ replicate (nat (- n)) 0x30 @ digits
      else if k = 1 then digits @ exponent_part n
      else take 1 digits @ ascii ''.'' @ drop 1 digits @ exponent_part n)"

definition Number_toString :: "bool \<Rightarrow> nat \<Rightarrow> int \<Rightarrow> jsstring" where
  "Number_toString negative m e =
     (if m = 0 then ascii ''0''
      else case shortest_decimal m e of
             (s, p) \<Rightarrow>
               (if negative then ascii ''-'' else []) @
               number_format (decimal_digits s) (p + int (length (decimal_digits s))))"

section \<open>Values\<close>

text \<open>
  The values the canonicalizer is specified for: null, booleans, numbers, strings,
  arrays and plain objects. An object is the list of its own enumerable string-keyed
  properties, in the order \<open>Object.keys\<close> lists them; its keys are distinct.
\<close>

datatype primitive = Null | Boolean bool | Number jsnumber | String jsstring

datatype jsvalue =
    Prim primitive
  | Array "jsvalue list"
  | Object "(jsstring \<times> jsvalue) list"

definition Object_keys :: "(jsstring \<times> 'a) list \<Rightarrow> jsstring list" where
  "Object_keys props = map fst props"

definition get_prop :: "(jsstring \<times> 'a) list \<Rightarrow> jsstring \<Rightarrow> 'a" where
  "get_prop props k = the (map_of props k)"

text \<open>
  A value is well formed when its finite numbers are doubles and the keys of each of its
  objects are distinct.
\<close>

fun well_formed :: "jsvalue \<Rightarrow> bool" where
  "well_formed (Prim (Number (Finite negative m e))) = is_double m e"
| "well_formed (Prim p) = True"
| "well_formed (Array items) = list_all well_formed items"
| "well_formed (Object props) =
     (distinct (Object_keys props) \<and> list_all (\<lambda>kv. well_formed (snd kv)) props)"

fun vsize :: "jsvalue \<Rightarrow> nat" where
  "vsize (Prim p) = 0"
| "vsize (Array items) = Suc (sum_list (map vsize items))"
| "vsize (Object props) = Suc (sum_list (map (\<lambda>kv. vsize (snd kv)) props))"

section \<open>JSON.stringify on primitives\<close>

definition hex_digit :: "nat \<Rightarrow> code_unit" where
  "hex_digit d = (if d < 10 then 0x30 + of_nat d else 0x57 + of_nat d)"

text \<open>\<open>\<close>\<open>uXXXX\<close> with four lowercase hexadecimal digits, after a backslash.\<close>

definition UnicodeEscape :: "code_unit \<Rightarrow> jsstring" where
  "UnicodeEscape u =
     [0x5C, 0x75,
      hex_digit (unat u div 4096 mod 16), hex_digit (unat u div 256 mod 16),
      hex_digit (unat u div 16 mod 16), hex_digit (unat u mod 16)]"

text \<open>
  The body of \<open>QuoteJSONString\<close>: backspace, tab, line feed, form feed, carriage
  return, the double quote and the backslash have two-character escapes; other control
  characters and unpaired surrogates are written as \<open>UnicodeEscape\<close>; a surrogate pair
  and every other code unit are copied.
\<close>

fun quote_units :: "jsstring \<Rightarrow> jsstring" where
  "quote_units [] = []"
| "quote_units (u # us) =
     (if u = 0x08 then [0x5C, 0x62] @ quote_units us
      else if u = 0x09 then [0x5C, 0x74] @ quote_units us
      else if u = 0x0A then [0x5C, 0x6E] @ quote_units us
      else if u = 0x0C then [0x5C, 0x66] @ quote_units us
      else if u = 0x0D then [0x5C, 0x72] @ quote_units us
      else if u = 0x22 then [0x5C, 0x22] @ quote_units us
      else if u = 0x5C then [0x5C, 0x5C] @ quote_units us
      else if u < 0x20 then UnicodeEscape u @ quote_units us
      else if is_high_surrogate u then
        (case us of
           [] \<Rightarrow> UnicodeEscape u
         | l # rest \<Rightarrow>
             if is_low_surrogate l then u # l # quote_units rest
             else UnicodeEscape u @ quote_units us)
      else if is_low_surrogate u then UnicodeEscape u @ quote_units us
      else u # quote_units us)"

definition QuoteJSONString :: "jsstring \<Rightarrow> jsstring" where
  "QuoteJSONString s = [0x22] @ quote_units s @ [0x22]"

text \<open>
  \<open>JSON.stringify\<close> of a primitive: the words \<open>null\<close>, \<open>true\<close> and \<open>false\<close>; a
  finite number as \<open>Number.prototype.toString\<close> writes it, and \<open>null\<close> for NaN and
  the infinities; a string between quotes.
\<close>

fun JSON_stringify :: "primitive \<Rightarrow> jsstring" where
  "JSON_stringify Null = ascii ''null''"
| "JSON_stringify (Boolean b) = (if b then ascii ''true'' else ascii ''false'')"
| "JSON_stringify (Number (Finite negative m e)) = Number_toString negative m e"
| "JSON_stringify (Number NaN) = ascii ''null''"
| "JSON_stringify (Number PosInfinity) = ascii ''null''"
| "JSON_stringify (Number NegInfinity) = ascii ''null''"
| "JSON_stringify (String s) = QuoteJSONString s"

section \<open>canonicalize\<close>

fun join :: "jsstring \<Rightarrow> jsstring list \<Rightarrow> jsstring" where
  "join sep [] = []"
| "join sep [x] = x"
| "join sep (x # y # ys) = x @ sep @ join sep (y # ys)"

lemma get_prop_vsize:
  assumes "k \<in> set (Object_keys props)"
  shows "vsize (get_prop props k) < vsize (Object props)"
proof -
  from assms obtain v where v: "map_of props k = Some v"
    by (auto simp: Object_keys_def weak_map_of_SomeI dest!: weak_map_of_SomeI)
  then have "(k, v) \<in> set props"
    by (rule map_of_SomeD)
  then have "vsize v \<le> sum_list (map (\<lambda>kv. vsize (snd kv)) props)"
    by (induction props) auto
  with v show ?thesis
    by (simp add: get_prop_def)
qed

function canonicalize :: "jsvalue \<Rightarrow> jsstring" where
  "canonicalize (Prim p) = JSON_stringify p"
| "canonicalize (Array items) =
     ascii ''['' @ join (ascii '','') (map canonicalize items) @ ascii '']''"
| "canonicalize (Object props) =
     (let keys = Array_sort (Object_keys props);
          entries = map (\<lambda>key. canonicalize (Prim (String key)) @ ascii '':'' @
                                canonicalize (get_prop props key)) keys
      in ascii ''{'' @ join (ascii '','') entries @ ascii ''}'')"
  by pat_completeness auto
termination
proof (relation "measure vsize")
  show "wf (measure vsize)" by simp
next
  fix items :: "jsvalue list" and x
  assume "x \<in> set items"
  then have "vsize x \<le> sum_list (map vsize items)"
    by (induction items) auto
  then show "(x, Array items) \<in> measure vsize" by simp
next
  fix props :: "(jsstring \<times> jsvalue) list" and keys key
  show "(Prim (String key), Object props) \<in> measure vsize" by simp
next
  fix props :: "(jsstring \<times> jsvalue) list" and keys key
  assume "keys = Array_sort (Object_keys props)" "key \<in> set keys"
  then have "key \<in> set (Object_keys props)"
    by (simp add: Array_sort_def)
  then show "(get_prop props key, Object props) \<in> measure vsize"
    using get_prop_vsize by simp
qed

section \<open>SHA-256 and the identifier\<close>

text \<open>
  \<open>createHash('sha256').update(s).digest('hex')\<close> hashes the UTF-8 encoding of the
  string \<open>s\<close> (an unpaired surrogate is encoded as U+FFFD) with SHA-256 (FIPS 180-4)
  and writes the 32 bytes of the digest as 64 lowercase hexadecimal digits.
\<close>

type_synonym byte = "8 word"

type_synonym u32 = "32 word"

definition utf8_of_code_point :: "nat \<Rightarrow> byte list" where
  "utf8_of_code_point cp =
     (if cp < 0x80 then [of_nat cp]
      else if cp < 0x800 then [0xC0 + of_nat (cp div 64), 0x80 + of_nat (cp mod 64)]
      else if 0xD800 \<le> cp \<and> cp \<le> 0xDFFF then [0xEF, 0xBF, 0xBD]
      else if cp < 0x10000 then
        [0xE0 + of_nat (cp div 4096), 0x80 + of_nat (cp div 64 mod 64), 0x80 + of_nat (cp mod 64)]
      else
        [0xF0 + of_nat (cp div 262144), 0x80 + of_nat (cp div 4096 mod 64),
         0x80 + of_nat (cp div 64 mod 64), 0x80 + of_nat (cp mod 64)])"

definition utf8_encode :: "jsstring \<Rightarrow> byte list" where
  "utf8_encode s = concat (map utf8_of_code_point (code_points s))"

definition rotr :: "nat \<Rightarrow> u32 \<Rightarrow> u32" where
  "rotr n x = drop_bit n x OR push_bit (32 - n) x"

definition Ch :: "u32 \<Rightarrow> u32 \<Rightarrow> u32 \<Rightarrow> u32" where
  "Ch x y z = (x AND y) XOR (NOT x AND z)"

definition Maj :: "u32 \<Rightarrow> u32 \<Rightarrow> u32 \<Rightarrow> u32" where
  "Maj x y z = (x AND y) XOR (x AND z) XOR (y AND z)"

definition Sigma0 :: "u32 \<Rightarrow> u32" where
  "Sigma0 x = rotr 2 x XOR rotr 13 x XOR rotr 22 x"

definition Sigma1 :: "u32 \<Rightarrow> u32" where
  "Sigma1 x = rotr 6 x XOR rotr 11 x XOR rotr 25 x"

definition sigma0 :: "u32 \<Rightarrow> u32" where
  "sigma0 x = rotr 7 x XOR rotr 18 x XOR drop_bit 3 x"

definition sigma1 :: "u32 \<Rightarrow> u32" where
  "sigma1 x = rotr 17 x XOR rotr 19 x XOR drop_bit 10 x"

definition sha256_K :: "u32 list" where
  "sha256_K =
     [
      0x428A2F98, 0x71374491, 0xB5C0FBCF, 0xE9B5DBA5,
      0x3956C25B, 0x59F111F1, 0x923F82A4, 0xAB1C5ED5,
      0xD807AA98, 0x12835B01, 0x243185BE, 0x550C7DC3,
      0x72BE5D74, 0x80DEB1FE, 0x9BDC06A7, 0xC19BF174,
      0xE49B69C1, 0xEFBE4786, 0x0FC19DC6, 0x240CA1CC,
      0x2DE92C6F, 0x4A7484AA, 0x5CB0A9DC, 0x76F988DA,
      0x983E5152, 0xA831C66D, 0xB00327C8, 0xBF597FC7,
      0xC6E00BF3, 0xD5A79147, 0x06CA6351, 0x14292967,
      0x27B70A85, 0x2E1B2138, 0x4D2C6DFC, 0x53380D13,
      0x650A7354, 0x766A0ABB, 0x81C2C92E, 0x92722C85,
      0xA2BFE8A1, 0xA81A664B, 0xC24B8B70, 0xC76C51A3,
      0xD192E819, 0xD6990624, 0xF40E3585, 0x106AA070,
      0x19A4C116, 0x1E376C08, 0x2748774C, 0x34B0BCB5,
      0x391C0CB3, 0x4ED8AA4A, 0x5B9CCA4F, 0x682E6FF3,
      0x748F82EE, 0x78A5636F, 0x84C87814, 0x8CC70208,
      0x90BEFFFA, 0xA4506CEB, 0xBEF9A3F7, 0xC67178F2]"

type_synonym hash_state = "u32 \<times> u32 \<times> u32 \<times> u32 \<times> u32 \<times> u32 \<times> u32 \<times> u32"

definition sha256_H0 :: hash_state where
  "sha256_H0 =
     (0x6A09E667, 0xBB67AE85, 0x3C6EF372, 0xA54FF53A,
      0x510E527F, 0x9B05688C, 0x1F83D9AB, 0x5BE0CD19)"

definition be64 :: "nat \<Rightarrow> byte list" where
  "be64 n = map (\<lambda>i. of_nat (n div 256 ^ i mod 256)) [7, 6, 5, 4, 3, 2, 1, 0]"

definition sha256_pad :: "byte list \<Rightarrow> byte list" where
  "sha256_pad m =
     m @ [0x80] @ replicate ((119 - length m mod 64) mod 64) 0 @ be64 (8 * length m)"

fun be32_words :: "byte list \<Rightarrow> u32 list" where
  "be32_words (a # b # c # d # bs) =
     (push_bit 24 (ucast a) OR push_bit 16 (ucast b) OR push_bit 8 (ucast c) OR ucast d)
       # be32_words bs"
| "be32_words bs = []"

fun extend_schedule :: "nat \<Rightarrow> u32 list \<Rightarrow> u32 list" where
  "extend_schedule 0 w = w"
| "extend_schedule (Suc n) w =
     extend_schedule n
       (w @ [sigma1 (w ! (length w - 2)) + w ! (length w - 7) +
             sigma0 (w ! (length w - 15)) + w ! (length w - 16)])"

definition sha256_round :: "u32 \<times> u32 \<Rightarrow> hash_state \<Rightarrow> hash_state" where
  "sha256_round kw s =
     (case s of (a, b, c, d, e, f, g, h) \<Rightarrow>
        let t1 = h + Sigma1 e + Ch e f g + fst kw + snd kw;
            t2 = Sigma0 a + Maj a b c
        in (t1 + t2, a, b, c, d + t1, e, f, g))"

definition add_state :: "hash_state \<Rightarrow> hash_state \<Rightarrow> hash_state" where
  "add_state s t =
     (case s of (a, b, c, d, e, f, g, h) \<Rightarrow>
      case t of (a', b', c', d', e', f', g', h') \<Rightarrow>
        (a + a', b + b', c + c', d + d', e + e', f + f', g + g', h + h'))"

definition sha256_compress :: "byte list \<Rightarrow> hash_state \<Rightarrow> hash_state" where
  "sha256_compress chunk s =
     add_state s (fold sha256_round (zip sha256_K (extend_schedule 48 (be32_words chunk))) s)"

function chunks64 :: "byte list \<Rightarrow> byte list list" where
  "chunks64 bs = (if bs = [] then [] else take 64 bs # chunks64 (drop 64 bs))"
  by pat_completeness auto
termination
  by (relation "measure length") auto

declare chunks64.simps [simp del]

definition sha256 :: "byte list \<Rightarrow> hash_state" where
  "sha256 m = fold sha256_compress (chunks64 (sha256_pad m)) sha256_H0"

definition hex32 :: "u32 \<Rightarrow> jsstring" where
  "hex32 w = map (\<lambda>i. hex_digit (unat (drop_bit (4 * i) w AND 0xF))) [7, 6, 5, 4, 3, 2, 1, 0]"

definition hex_of_state :: "hash_state \<Rightarrow> jsstring" where
  "hex_of_state s =
     (case s of (a, b, c, d, e, f, g, h) \<Rightarrow>
        hex32 a @ hex32 b @ hex32 c @ hex32 d @ hex32 e @ hex32 f @ hex32 g @ hex32 h)"

definition createHash_sha256_hex :: "jsstring \<Rightarrow> jsstring" where
  "createHash_sha256_hex s = hex_of_state (sha256 (utf8_encode s))"

definition sha256Hex :: "jsvalue \<Rightarrow> jsstring" where
  "sha256Hex input = (let canonical = canonicalize input in createHash_sha256_hex canonical)"

text \<open>
  \<open>id32\<close> declares its material a string; the type is erased when the program runs and
  \<open>sha256Hex\<close> takes any value, so the model does too. \<open>slice(0, 32)\<close> keeps the first
  32 code units.
\<close>

definition id32 :: "jsstring \<Rightarrow> jsvalue \<Rightarrow> jsstring" where
  "id32 prefix material = prefix @ ascii ''_'' @ take 32 (sha256Hex material)"

section \<open>Notions the properties are stated with\<close>

fun finite_number :: "jsnumber \<Rightarrow> bool" where
  "finite_number (Finite negative m e) = True"
| "finite_number NaN = False"
| "finite_number PosInfinity = False"
| "finite_number NegInfinity = False"

definition lower_hex :: "code_unit \<Rightarrow> bool" where
  "lower_hex u \<longleftrightarrow> (0x30 \<le> u \<and> u \<le> 0x39) \<or> (0x61 \<le> u \<and> u \<le> 0x66)"

text \<open>
  Two values that differ only in the order in which the keys of their objects were
  inserted: the same primitive, arrays of pairwise such values, or objects with the same
  (distinct) keys bound to such values.
\<close>

inductive same_up_to_key_order :: "jsvalue \<Rightarrow> jsvalue \<Rightarrow> bool" where
  prim: "same_up_to_key_order (Prim p) (Prim p)"
| array: "list_all2 same_up_to_key_order xs ys \<Longrightarrow> same_up_to_key_order (Array xs) (Array ys)"
| object:
    "distinct (Object_keys ps) \<Longrightarrow> distinct (Object_keys qs) \<Longrightarrow>
     set (Object_keys ps) = set (Object_keys qs) \<Longrightarrow>
     (\<forall>k \<in> set (Object_keys ps). same_up_to_key_order (get_prop ps k) (get_prop qs k)) \<Longrightarrow>
     same_up_to_key_order (Object ps) (Object qs)"

text \<open>The comparison of two strings by their code points, lexicographically.\<close>

definition code_point_less :: "jsstring \<Rightarrow> jsstring \<Rightarrow> bool" where
  "code_point_less a b \<longleftrightarrow> code_points a < code_points b"

definition bmp_only :: "jsstring \<Rightarrow> bool" where
  "bmp_only s \<longleftrightarrow> list_all (\<lambda>u. \<not> is_surrogate u) s"

section \<open>Objects in a store\<close>

text \<open>
  Arrays and objects are mutable and held by reference, so that a value can be shared
  and can contain itself. The store is the list of the objects allocated so far, an
  address is a position in it. Each object carries the flag that \<open>Object.freeze\<close> sets
  and its own enumerable properties: the elements of an array, or the key-value pairs of
  a plain object in the order of \<open>Object.keys\<close>.
\<close>

type_synonym addr = nat

datatype ref_value = PrimV primitive | Ref addr

datatype container = ArrayC "ref_value list" | ObjectC "(jsstring \<times> ref_value) list"

record cell =
  frozen :: bool
  contents :: container

type_synonym heap = "cell list"

definition lookup :: "heap \<Rightarrow> addr \<Rightarrow> cell option" where
  "lookup h a = (if a < length h then Some (h ! a) else None)"

text \<open>A property key of a container: an array index or the name of an object's property.\<close>

datatype pkey = Idx nat | Name jsstring

fun own_keys :: "container \<Rightarrow> pkey list" where
  "own_keys (ArrayC items) = map Idx [0 ..< length items]"
| "own_keys (ObjectC props) = map Name (Object_keys props)"

fun get_own :: "container \<Rightarrow> pkey \<Rightarrow> ref_value option" where
  "get_own (ArrayC items) (Idx i) = (if i < length items then Some (items ! i) else None)"
| "get_own (ArrayC items) (Name k) = None"
| "get_own (ObjectC props) (Name k) = map_of props k"
| "get_own (ObjectC props) (Idx i) = None"

definition Object_freeze :: "heap \<Rightarrow> addr \<Rightarrow> heap" where
  "Object_freeze h a = (if a < length h then h[a := (h ! a)\<lparr>frozen := True\<rparr>] else h)"

text \<open>
  A loop over a list, and the mapping of a list, whose body may fail to return: the loop
  then returns nothing either.
\<close>

fun fold_option :: "('a \<Rightarrow> 's \<Rightarrow> 's option) \<Rightarrow> 'a list \<Rightarrow> 's \<Rightarrow> 's option" where
  "fold_option f [] s = Some s"
| "fold_option f (x # xs) s = Option.bind (f x s) (fold_option f xs)"

fun map_option_list :: "('a \<Rightarrow> 'b option) \<Rightarrow> 'a list \<Rightarrow> 'b list option" where
  "map_option_list f [] = Some []"
| "map_option_list f (x # xs) =
     Option.bind (f x) (\<lambda>y. Option.bind (map_option_list f xs) (\<lambda>ys. Some (y # ys)))"

lemma fold_option_mono [partial_function_mono]:
  assumes "\<And>x s. mono_option (\<lambda>f. B f x s)"
  shows "mono_option (\<lambda>f. fold_option (B f) xs s)"
proof (induction xs arbitrary: s)
  case Nil
  show ?case by (simp add: option.const_mono)
next
  case (Cons x xs)
  show ?case
    unfolding fold_option.simps by (intro bind_mono assms Cons)
qed

lemma map_option_list_mono [partial_function_mono]:
  assumes "\<And>x. mono_option (\<lambda>f. B f x)"
  shows "mono_option (\<lambda>f. map_option_list (B f) xs)"
proof (induction xs)
  case Nil
  show ?case by (simp add: option.const_mono)
next
  case (Cons x xs)
  show ?case
    unfolding map_option_list.simps by (intro bind_mono assms Cons option.const_mono)
qed

text \<open>
  \<open>canonicalize\<close> on a value in the store. The recursion follows the references; where
  it does not end, the result is \<open>None\<close>: the function returns no string. (A reference
  of a program always addresses an object of its store; for an address outside the store
  the functions on the store have no result either.)
\<close>

partial_function (option) canonicalize_heap :: "heap \<Rightarrow> ref_value \<Rightarrow> jsstring option" where
  "canonicalize_heap h v =
     (case v of
        PrimV p \<Rightarrow> Some (JSON_stringify p)
      | Ref a \<Rightarrow>
          (case lookup h a of
             None \<Rightarrow> None
           | Some c \<Rightarrow>
               (case contents c of
                  ArrayC elems \<Rightarrow>
                    Option.bind (map_option_list (\<lambda>item. canonicalize_heap h item) elems)
                      (\<lambda>items. Some (ascii ''['' @ join (ascii '','') items @ ascii '']''))
                | ObjectC props \<Rightarrow>
                    Option.bind
                      (map_option_list
                         (\<lambda>key.
                            Option.bind (canonicalize_heap h (PrimV (String key)))
                              (\<lambda>canonicalKey.
                                 Option.bind (canonicalize_heap h (get_prop props key))
                                   (\<lambda>canonicalValue.
                                      Some (canonicalKey @ ascii '':'' @ canonicalValue))))
                         (Array_sort (Object_keys props)))
                      (\<lambda>entries. Some (ascii ''{'' @ join (ascii '','') entries @ ascii ''}'')))))"

text \<open>
  \<open>deepFreeze\<close>: freeze the object, then visit the value of each of its keys, read
  from the object when its turn comes. The result is the store and the argument.
\<close>

partial_function (option) deepFreeze :: "heap \<Rightarrow> ref_value \<Rightarrow> (heap \<times> ref_value) option" where
  "deepFreeze h obj =
     (case obj of
        PrimV p \<Rightarrow> Some (h, obj)
      | Ref a \<Rightarrow>
          (case lookup h a of
             None \<Rightarrow> None
           | Some c \<Rightarrow>
               Option.bind
                 (fold_option
                    (\<lambda>key h'.
                       case Option.bind (lookup h' a) (\<lambda>c'. get_own (contents c') key) of
                         None \<Rightarrow> Some h'
                       | Some v \<Rightarrow> Option.bind (deepFreeze h' v) (\<lambda>r. Some (fst r)))
                    (own_keys (contents c)) (Object_freeze h a))
                 (\<lambda>h'. Some (h', obj))))"

text \<open>
  What a value in the store unfolds to, when following its references ends: the value
  as a tree. An object is read as the program reads it, key by key.
\<close>

inductive denotes :: "heap \<Rightarrow> ref_value \<Rightarrow> jsvalue \<Rightarrow> bool" for h :: heap where
  prim: "denotes h (PrimV p) (Prim p)"
| array:
    "lookup h a = Some c \<Longrightarrow> contents c = ArrayC elems \<Longrightarrow>
     list_all2 (denotes h) elems ts \<Longrightarrow> denotes h (Ref a) (Array ts)"
| object:
    "lookup h a = Some c \<Longrightarrow> contents c = ObjectC props \<Longrightarrow>
     list_all2 (\<lambda>k kt. fst kt = k \<and> denotes h (get_prop props k) (snd kt))
       (Object_keys props) tprops \<Longrightarrow>
     denotes h (Ref a) (Object tprops)"

text \<open>The store of \<open>const o = {}; o.self = o\<close>.\<close>

definition self_heap :: heap where
  "self_heap = [\<lparr>frozen = False, contents = ObjectC [(ascii ''self'', Ref 0)]\<rparr>]"

text \<open>The values of the own properties of a container, as \<open>obj[key]\<close> reads them.\<close>

fun prop_values :: "container \<Rightarrow> ref_value list" where
  "prop_values (ArrayC elems) = elems"
| "prop_values (ObjectC props) = map (get_prop props) (Object_keys props)"

text \<open>The objects reachable from a value through the properties of objects.\<close>

inductive_set reach :: "heap \<Rightarrow> ref_value \<Rightarrow> addr set" for h :: heap and v :: ref_value where
  root: "v = Ref a \<Longrightarrow> a \<in> reach h v"
| step:
    "a \<in> reach h v \<Longrightarrow> lookup h a = Some c \<Longrightarrow> Ref b \<in> set (prop_values (contents c)) \<Longrightarrow>
     b \<in> reach h v"

text \<open>
  An object is on a cycle when it is reachable from the value of one of its own
  properties; a value contains a cycle when it reaches such an object.
\<close>

definition on_cycle :: "heap \<Rightarrow> addr \<Rightarrow> bool" where
  "on_cycle h a \<longleftrightarrow>
     (\<exists>c x. lookup h a = Some c \<and> x \<in> set (prop_values (contents c)) \<and> a \<in> reach h x)"

definition contains_cycle :: "heap \<Rightarrow> ref_value \<Rightarrow> bool" where
  "contains_cycle h v \<longleftrightarrow> (\<exists>a. a \<in> reach h v \<and> on_cycle h a)"

text \<open>Every object reachable from the value is an object of the store.\<close>

definition in_store :: "heap \<Rightarrow> ref_value \<Rightarrow> bool" where
  "in_store h v \<longleftrightarrow> (\<forall>a \<in> reach h v. a < length h)"

text \<open>The pairs of a child and its parent, among the objects reachable from the value.\<close>

definition child_rel :: "heap \<Rightarrow> ref_value \<Rightarrow> (addr \<times> addr) set" where
  "child_rel h v =
     {(b, a). a \<in> reach h v \<and> (\<exists>c. lookup h a = Some c \<and> Ref b \<in> set (prop_values (contents c)))}"

text \<open>The store \<open>h'\<close> is the store \<open>h\<close> with more objects frozen and nothing else changed.\<close>

definition freeze_ext :: "heap \<Rightarrow> heap \<Rightarrow> bool" where
  "freeze_ext h h' \<longleftrightarrow>
     length h' = length h \<and>
     (\<forall>a < length h. contents (h' ! a) = contents (h ! a) \<and> (frozen (h ! a) \<longrightarrow> frozen (h' ! a)))"

text \<open>
  What a program can try on the store afterwards: replace the own properties of an
  object (any assignment to a property or an index, deletion, \<open>push\<close>, \<open>pop\<close>, ...)
  or create a new object. On a frozen object the attempt is rejected (a \<open>TypeError\<close>
  in strict code, ignored otherwise) and the store stays as it is.
\<close>

datatype mutation = Write addr container | Allocate container

fun attempt :: "heap \<Rightarrow> mutation \<Rightarrow> heap" where
  "attempt h (Write a c') =
     (case lookup h a of
        None \<Rightarrow> h
      | Some c \<Rightarrow> if frozen c then h else h[a := c\<lparr>contents := c'\<rparr>])"
| "attempt h (Allocate c') = h @ [\<lparr>frozen = False, contents = c'\<rparr>]"

definition attempts :: "heap \<Rightarrow> mutation list \<Rightarrow> heap" where
  "attempts h ws = foldl attempt h ws"

text \<open>Reading \<open>x[k1][k2]...\<close>; \<open>None\<close> where a property is missing.\<close>

fun read_path :: "heap \<Rightarrow> ref_value \<Rightarrow> pkey list \<Rightarrow> ref_value option" where
  "read_path h v [] = Some v"
| "read_path h (PrimV p) (k # ks) = None"
| "read_path h (Ref a) (k # ks) =
     (case lookup h a of
        None \<Rightarrow> None
      | Some c \<Rightarrow>
          (case get_own (contents c) k of
             None \<Rightarrow> None
           | Some v \<Rightarrow> read_path h v ks))"

text \<open>The body of the loop of \<open>deepFreeze\<close>, for the object at \<open>a\<close>.\<close>

definition freeze_visit ::
  "(heap \<Rightarrow> ref_value \<Rightarrow> (heap \<times> ref_value) option) \<Rightarrow> addr \<Rightarrow> pkey \<Rightarrow> heap \<Rightarrow> heap option" where
  "freeze_visit f a key h' =
     (case Option.bind (lookup h' a) (\<lambda>c'. get_own (contents c') key) of
        None \<Rightarrow> Some h'
      | Some v \<Rightarrow> Option.bind (f h' v) (\<lambda>r. Some (fst r)))"

section \<open>Example stores\<close>

text \<open>
  The store of \<open>const inner = [null, "x"]; const x = {list: inner, n: 1}\<close>, with a
  third object that is not part of \<open>x\<close>.
\<close>

definition sample_heap :: heap where
  "sample_heap =
     [\<lparr>frozen = False,
       contents = ObjectC [(ascii ''list'', Ref 1), (ascii ''n'', PrimV (Number double_1))]\<rparr>,
      \<lparr>frozen = False, contents = ArrayC [PrimV Null, PrimV (String (ascii ''x''))]\<rparr>,
      \<lparr>frozen = False, contents = ObjectC []\<rparr>]"

definition sample_frozen :: heap where
  "sample_frozen =
     [\<lparr>frozen = True,
       contents = ObjectC [(ascii ''list'', Ref 1), (ascii ''n'', PrimV (Number double_1))]\<rparr>,
      \<lparr>frozen = True, contents = ArrayC [PrimV Null, PrimV (String (ascii ''x''))]\<rparr>,
      \<lparr>frozen = False, contents = ObjectC []\<rparr>]"

definition sample_tree :: jsvalue where
  "sample_tree =
     Object [(ascii ''list'', Array [Prim Null, Prim (String (ascii ''x''))]),
             (ascii ''n'', Prim (Number double_1))]"

section \<open>deepClone\<close>

definition allocate :: "heap \<Rightarrow> container \<Rightarrow> heap \<times> addr" where
  "allocate h c = (h @ [\<lparr>frozen = False, contents = c\<rparr>], length h)"

definition proto_key :: jsstring where
  "proto_key = ascii ''__proto__''"

fun put_prop :: "(jsstring \<times> ref_value) list \<Rightarrow> jsstring \<Rightarrow> ref_value \<Rightarrow> (jsstring \<times> ref_value) list" where
  "put_prop [] k v = [(k, v)]"
| "put_prop ((k', v') # ps) k v = (if k' = k then (k, v) # ps else (k', v') # put_prop ps k v)"

text \<open>
  The assignment \<open>cloned[key] = v\<close> to a plain object created by \<open>{}\<close>. A key the
  object has is overwritten and a new key is added after the others. The key
  \<open>__proto__\<close>, when the object has no property of that name, is the accessor that the
  object inherits from \<open>Object.prototype\<close>: the assignment runs its setter, which sets
  the prototype of the object (or does nothing when \<open>v\<close> is neither an object nor null),
  and the object gets no property. The prototype is not one of the own properties and
  the store does not record it. \<open>deepClone\<close> only assigns to the object it has just
  created, which is neither an array nor frozen; there the store is left as it is.
\<close>

definition assign_prop :: "heap \<Rightarrow> addr \<Rightarrow> jsstring \<Rightarrow> ref_value \<Rightarrow> heap" where
  "assign_prop h a key v =
     (case lookup h a of
        None \<Rightarrow> h
      | Some c \<Rightarrow>
          (case contents c of
             ArrayC elems \<Rightarrow> h
           | ObjectC props \<Rightarrow>
               if key = proto_key \<and> key \<notin> set (Object_keys props) then h
               else if frozen c then h
               else h[a := c\<lparr>contents := ObjectC (put_prop props key v)\<rparr>]))"

text \<open>\<open>Array.prototype.map\<close> stores the next element of the array it is building.\<close>

definition array_append :: "heap \<Rightarrow> addr \<Rightarrow> ref_value \<Rightarrow> heap" where
  "array_append h a v =
     (case lookup h a of
        None \<Rightarrow> h
      | Some c \<Rightarrow>
          (case contents c of
             ArrayC elems \<Rightarrow> h[a := c\<lparr>contents := ArrayC (elems @ [v])\<rparr>]
           | ObjectC props \<Rightarrow> h))"

text \<open>
  \<open>deepClone\<close>: a primitive is returned as it is; for an array, \<open>map\<close> creates the new
  array and fills it with the clones of the elements; for an object, \<open>cloned\<close> is
  created empty and each key of the object is assigned the clone of its value. The loop
  writes only to the objects it creates, so the elements and the properties of the
  object being cloned are those it had at the start.
\<close>

partial_function (option) deepClone :: "heap \<Rightarrow> ref_value \<Rightarrow> (heap \<times> ref_value) option" where
  "deepClone h obj =
     (case obj of
        PrimV p \<Rightarrow> Some (h, obj)
      | Ref a \<Rightarrow>
          (case lookup h a of
             None \<Rightarrow> None
           | Some c \<Rightarrow>
               (case contents c of
                  ArrayC elems \<Rightarrow>
                    (case allocate h (ArrayC []) of
                       (h0, mapped) \<Rightarrow>
                         Option.bind
                           (fold_option
                              (\<lambda>item h'.
                                 Option.bind (deepClone h' item)
                                   (\<lambda>r. Some (array_append (fst r) mapped (snd r))))
                              elems h0)
                           (\<lambda>h'. Some (h', Ref mapped)))
                | ObjectC props \<Rightarrow>
                    (case allocate h (ObjectC []) of
                       (h0, cloned) \<Rightarrow>
                         Option.bind
                           (fold_option
                              (\<lambda>key h'.
                                 Option.bind (deepClone h' (get_prop props key))
                                   (\<lambda>r. Some (assign_prop (fst r) cloned key (snd r))))
                              (Object_keys props) h0)
                           (\<lambda>h'. Some (h', Ref cloned))))))"

text \<open>The store of \<open>const x = JSON.parse('{"__proto__": 1}')\<close>.\<close>

definition proto_heap :: heap where
  "proto_heap = [\<lparr>frozen = False, contents = ObjectC [(proto_key, PrimV (Number double_1))]\<rparr>]"

definition proto_frozen :: heap where
  "proto_frozen = [\<lparr>frozen = True, contents = ObjectC [(proto_key, PrimV (Number double_1))]\<rparr>]"

definition proto_cloned :: heap where
  "proto_cloned =
     [\<lparr>frozen = True, contents = ObjectC [(proto_key, PrimV (Number double_1))]\<rparr>,
      \<lparr>frozen = False, contents = ObjectC []\<rparr>]"

section \<open>Reading a canonical string; semantic equality\<close>

text \<open>Reading back a quoted string: the inverse of \<open>quote_units\<close>, up to the closing quote.\<close>

definition unhex_digit :: "code_unit \<Rightarrow> nat" where
  "unhex_digit c = (if c \<le> 0x39 then unat c - 0x30 else unat c - 0x57)"

fun unquote_units :: "jsstring \<Rightarrow> (jsstring \<times> jsstring) option" where
  "unquote_units [] = None"
| "unquote_units (c # r) =
     (if c = 0x22 then Some ([], r)
      else if c = 0x5C then
        (case r of
           [] \<Rightarrow> None
         | e # r' \<Rightarrow>
             if e = 0x75 then
               (case r' of
                  d3 # d2 # d1 # d0 # r'' \<Rightarrow>
                    map_option
                      (\<lambda>(s, rest).
                         (of_nat (4096 * unhex_digit d3 + 256 * unhex_digit d2 +
                                  16 * unhex_digit d1 + unhex_digit d0) # s, rest))
                      (unquote_units r'')
                | _ \<Rightarrow> None)
             else
               map_option
                 (\<lambda>(s, rest).
                    ((if e = 0x62 then 0x08 else if e = 0x74 then 0x09 else if e = 0x6E then 0x0A
                      else if e = 0x66 then 0x0C else if e = 0x72 then 0x0D else e) # s, rest))
                 (unquote_units r'))
      else map_option (\<lambda>(s, rest). (c # s, rest)) (unquote_units r))"

definition is_digit :: "code_unit \<Rightarrow> bool" where
  "is_digit c \<longleftrightarrow> 0x30 \<le> c \<and> c \<le> 0x39"

definition digits_value :: "jsstring \<Rightarrow> nat" where
  "digits_value ds = foldl (\<lambda>a d. 10 * a + (unat d - 0x30)) 0 ds"

text \<open>
  Reading back the text of a positive number: the digits before and after the point,
  and the exponent after \<open>e\<close>.
\<close>

definition exponent_value :: "jsstring \<Rightarrow> int" where
  "exponent_value r =
     (if r \<noteq> [] \<and> hd r = 0x65
      then (if hd (tl r) = 0x2D then - int (digits_value (tl (tl r)))
            else int (digits_value (tl (tl r))))
      else 0)"

definition decimal_value :: "jsstring \<Rightarrow> rat" where
  "decimal_value t =
     (let whole = takeWhile is_digit t; r1 = dropWhile is_digit t in
      if r1 \<noteq> [] \<and> hd r1 = 0x2E then
        (let frac = takeWhile is_digit (tl r1); r2 = dropWhile is_digit (tl r1)
         in decimal (digits_value (whole @ frac)) (exponent_value r2 - int (length frac)))
      else decimal (digits_value whole) (exponent_value r1))"

text \<open>The code units that occur in the text of a number.\<close>

definition number_unit :: "code_unit \<Rightarrow> bool" where
  "number_unit c \<longleftrightarrow> is_digit c \<or> c = 0x2E \<or> c = 0x65 \<or> c = 0x2B \<or> c = 0x2D"

text \<open>What may follow a value in a canonical string: nothing, a comma or a closing bracket.\<close>

definition delimited :: "jsstring \<Rightarrow> bool" where
  "delimited r \<longleftrightarrow> (case r of [] \<Rightarrow> True | c # _ \<Rightarrow> c = 0x2C \<or> c = 0x5D \<or> c = 0x7D)"

text \<open>
  Two primitives are the same when they are equal, the two zeros counting as one number
  (as they do for \<open>===\<close>).
\<close>

fun number_value :: "jsnumber \<Rightarrow> jsnumber" where
  "number_value (Finite negative m e) = (if m = 0 then Finite False 0 e else Finite negative m e)"
| "number_value NaN = NaN"
| "number_value PosInfinity = PosInfinity"
| "number_value NegInfinity = NegInfinity"

fun same_primitive :: "primitive \<Rightarrow> primitive \<Rightarrow> bool" where
  "same_primitive (Number x) (Number y) = (number_value x = number_value y)"
| "same_primitive p q = (p = q)"

text \<open>
  Semantic equality of values: the same primitives, arrays of pairwise equal values in
  the same order, objects with the same keys bound to equal values, whatever the order
  of the keys.
\<close>

inductive sem_equal :: "jsvalue \<Rightarrow> jsvalue \<Rightarrow> bool" where
  prim: "same_primitive p q \<Longrightarrow> sem_equal (Prim p) (Prim q)"
| array: "list_all2 sem_equal xs ys \<Longrightarrow> sem_equal (Array xs) (Array ys)"
| object:
    "distinct (Object_keys ps) \<Longrightarrow> distinct (Object_keys qs) \<Longrightarrow>
     set (Object_keys ps) = set (Object_keys qs) \<Longrightarrow>
     (\<forall>k \<in> set (Object_keys ps). sem_equal (get_prop ps k) (get_prop qs k)) \<Longrightarrow>
     sem_equal (Object ps) (Object qs)"

text \<open>The values with no NaN and no infinity in them.\<close>

fun finite_numbers :: "jsvalue \<Rightarrow> bool" where
  "finite_numbers (Prim (Number x)) = finite_number x"
| "finite_numbers (Prim p) = True"
| "finite_numbers (Array items) = list_all finite_numbers items"
| "finite_numbers (Object props) = list_all (\<lambda>kv. finite_numbers (snd kv)) props"

text \<open>
  The supported values: every number in them is a finite double, and the keys of every
  object are distinct.
\<close>

definition supported :: "jsvalue \<Rightarrow> bool" where
  "supported v \<longleftrightarrow> well_formed v \<and> finite_numbers v"

definition entry_text :: "(jsstring \<times> jsvalue) list \<Rightarrow> jsstring \<Rightarrow> jsstring" where
  "entry_text props k = QuoteJSONString k @ 0x3A # canonicalize (get_prop props k)"

definition prim_start :: "code_unit \<Rightarrow> bool" where
  "prim_start c \<longleftrightarrow> c = 0x6E \<or> c = 0x74 \<or> c = 0x66 \<or> c = 0x2D \<or> c = 0x22 \<or> is_digit c"

definition value_start :: "code_unit \<Rightarrow> bool" where
  "value_start c \<longleftrightarrow> prim_start c \<or> c = 0x5B \<or> c = 0x7B"

section \<open>Stores that grow\<close>

text \<open>The store \<open>h'\<close> is the store \<open>h\<close> with new objects after it.\<close>

definition extends :: "heap \<Rightarrow> heap \<Rightarrow> bool" where
  "extends h h' \<longleftrightarrow> length h \<le> length h' \<and> (\<forall>a < length h. h' ! a = h ! a)"

text \<open>The objects of \<open>r\<close> in \<open>h'\<close> were all created after \<open>h\<close>, and none is frozen.\<close>

definition fresh_in :: "heap \<Rightarrow> heap \<Rightarrow> ref_value \<Rightarrow> bool" where
  "fresh_in h h' r \<longleftrightarrow>
     (\<forall>a \<in> reach h' r. length h \<le> a \<and> a < length h' \<and> \<not> frozen (h' ! a))"

text \<open>No object of the value has two properties of one name or a property \<open>__proto__\<close>.\<close>

fun plain_keys :: "jsvalue \<Rightarrow> bool" where
  "plain_keys (Prim p) = True"
| "plain_keys (Array items) = list_all plain_keys items"
| "plain_keys (Object props) =
     (distinct (Object_keys props) \<and> proto_key \<notin> set (Object_keys props) \<and>
      list_all (\<lambda>kv. plain_keys (snd kv)) props)"

text \<open>What the loops of \<open>deepClone\<close> keep true of a clone made so far.\<close>

definition clone_ok :: "heap \<Rightarrow> addr \<Rightarrow> ref_value \<Rightarrow> jsvalue \<Rightarrow> bool" where
  "clone_ok h m r t \<longleftrightarrow>
     denotes h r t \<and> (\<forall>b \<in> reach h r. m < b \<and> b < length h \<and> \<not> frozen (h ! b))"

chapter \<open>Properties\<close>

section \<open>The text of some numbers\<close>

lemma replicate_unfold: "replicate n x = (if n = 0 then [] else x # replicate (n - 1) x)"
  by (cases n) simp_all

lemmas number_text_eval =
  Number_toString_def shortest_decimal_def decimal_exponent_def double_value_def
  decimal_down.simps decimal_up.simps shortest_from.simps nearest_def rounds_to_def
  round_lower_def round_upper_def decimal_def strip_zeros.simps decimal_digits.simps
  digit_unit_def number_format_def exponent_part_def ascii_def Let_def replicate_unfold

lemma Number_toString_1: "Number_toString False 4503599627370496 (- 52) = [0x31]"
  by (simp add: number_text_eval)

lemma Number_toString_2: "Number_toString False 4503599627370496 (- 51) = [0x32]"
  by (simp add: number_text_eval)

text \<open>
  The numbers 1.5, -1.5, 15, 0.1 (the double nearest to it), \<open>2 ^ 60\<close>, \<open>10 ^ 21\<close> and
  the double nearest to \<open>10 ^ -7\<close>, as \<open>String(x)\<close> and \<open>JSON.stringify(x)\<close> write them.
\<close>

lemma Number_toString_examples:
  "Number_toString False 6755399441055744 (- 52) = ascii ''1.5''"
  "Number_toString True 6755399441055744 (- 52) = ascii ''-1.5''"
  "Number_toString False 8444249301319680 (- 49) = ascii ''15''"
  "Number_toString False 7205759403792794 (- 56) = ascii ''0.1''"
  "Number_toString False (2 ^ 52) 8 = ascii ''1152921504606847000''"
  "Number_toString False (5 ^ 21 * 2 ^ 4) 17 = ascii ''1e+21''"
  "Number_toString False 7555786372591432 (- 76) = ascii ''1e-7''"
  by (simp_all add: number_text_eval)

section \<open>The digest is 64 lowercase hexadecimal digits\<close>

lemma string_less_iff: "string_less a b \<longleftrightarrow> a < b"
  by (induction a b rule: string_less.induct) auto

lemma lower_hex_hex_digit: "d < 16 \<Longrightarrow> lower_hex (hex_digit d)"
proof -
  assume "d < 16"
  then have "d = 0 \<or> d = 1 \<or> d = 2 \<or> d = 3 \<or> d = 4 \<or> d = 5 \<or> d = 6 \<or> d = 7 \<or> d = 8
      \<or> d = 9 \<or> d = 10 \<or> d = 11 \<or> d = 12 \<or> d = 13 \<or> d = 14 \<or> d = 15"
    by presburger
  then show ?thesis
    by (elim disjE) (simp_all add: lower_hex_def hex_digit_def)
qed

lemma nibble_less: "unat (w AND (0xF :: u32)) < 16"
proof -
  have "unat (w AND 0xF) \<le> unat (0xF :: u32)"
    by (rule word_and_le1 [THEN word_le_nat_alt [THEN iffD1]])
  then show ?thesis by simp
qed

lemma length_hex32: "length (hex32 w) = 8"
  by (simp add: hex32_def)

lemma lower_hex_hex32: "list_all lower_hex (hex32 w)"
  by (simp add: hex32_def lower_hex_hex_digit nibble_less)

lemma length_hex_of_state: "length (hex_of_state s) = 64"
  by (simp add: hex_of_state_def length_hex32 split: prod.splits)

lemma lower_hex_hex_of_state: "list_all lower_hex (hex_of_state s)"
  by (simp add: hex_of_state_def lower_hex_hex32 split: prod.splits)

lemma length_sha256Hex: "length (sha256Hex v) = 64"
  by (simp add: sha256Hex_def createHash_sha256_hex_def length_hex_of_state)

lemma lower_hex_sha256Hex: "list_all lower_hex (sha256Hex v)"
  by (simp add: sha256Hex_def createHash_sha256_hex_def lower_hex_hex_of_state)

lemma list_all_take: "list_all P xs \<Longrightarrow> list_all P (take n xs)"
  by (auto simp: list_all_iff dest: in_set_takeD)

text \<open>
  C5. For every prefix and every material, \<open>id32\<close> returns the prefix, an underscore
  and the first 32 characters of the digest of the material, the digest being the
  lowercase hexadecimal SHA-256 of the UTF-8 bytes of \<open>canonicalize material\<close>: the
  part after the underscore has exactly 32 characters, each a lowercase hexadecimal
  digit. The result is a function of the prefix and the material alone.
\<close>

theorem id32_shape:
  "id32 prefix material =
     prefix @ ascii ''_'' @ take 32 (hex_of_state (sha256 (utf8_encode (canonicalize material))))
   \<and> take 32 (hex_of_state (sha256 (utf8_encode (canonicalize material))))
       = take 32 (sha256Hex material)
   \<and> length (take 32 (sha256Hex material)) = 32
   \<and> list_all lower_hex (take 32 (sha256Hex material))"
  using length_sha256Hex [of material] lower_hex_sha256Hex [of material]
  by (simp add: id32_def sha256Hex_def createHash_sha256_hex_def list_all_take)

text \<open>
  C10. For every prefix (the empty string, a prefix with underscores or with any other
  character) and every material, \<open>id32\<close> returns a string of the length of the prefix
  plus 33. The function has no failing branch: it checks nothing about the prefix.
\<close>

theorem id32_length: "length (id32 prefix material) = length prefix + 33"
  by (simp add: id32_def length_sha256Hex ascii_def)

text \<open>
  C9. For every non-finite number (NaN, +Infinity, -Infinity), \<open>canonicalize\<close> returns
  the string \<open>null\<close>, the canonical string of the null value, so the digests and the
  identifiers of the two coincide.
\<close>

theorem nonfinite_is_null:
  assumes "\<not> finite_number x"
  shows "canonicalize (Prim (Number x)) = ascii ''null''
    \<and> canonicalize (Prim (Number x)) = canonicalize (Prim Null)
    \<and> sha256Hex (Prim (Number x)) = sha256Hex (Prim Null)
    \<and> id32 prefix (Prim (Number x)) = id32 prefix (Prim Null)"
  using assms by (cases x) (simp_all add: sha256Hex_def id32_def)

theorem nonfinite_is_null_witness:
  "\<not> finite_number NaN
    \<and> canonicalize (Prim (Number NaN)) = ascii ''null''
    \<and> canonicalize (Prim (Number NaN)) = canonicalize (Prim Null)
    \<and> sha256Hex (Prim (Number NaN)) = sha256Hex (Prim Null)
    \<and> id32 (ascii ''cred'') (Prim (Number NaN)) = id32 (ascii ''cred'') (Prim Null)"
  using nonfinite_is_null [of NaN "ascii ''cred''"] by simp

section \<open>Key order\<close>

lemma sort_distinct_same_set:
  fixes xs ys :: "jsstring list"
  assumes "distinct xs" "distinct ys" "set xs = set ys"
  shows "sort xs = sort ys"
proof -
  from assms have "mset xs = mset ys"
    by (simp add: set_eq_iff_mset_eq_distinct)
  then have "mset (sort ys) = mset xs"
    by simp
  then show ?thesis
    by (rule properties_for_sort) simp
qed

lemma same_up_to_key_order_canonicalize:
  "same_up_to_key_order v1 v2 \<Longrightarrow> canonicalize v1 = canonicalize v2"
proof (induction rule: same_up_to_key_order.induct)
  case (prim p)
  show ?case by simp
next
  case (array xs ys)
  then have "map canonicalize xs = map canonicalize ys"
    by (induction rule: list_all2_induct) auto
  then show ?case by simp
next
  case (object ps qs)
  have keys: "Array_sort (Object_keys ps) = Array_sort (Object_keys qs)"
    unfolding Array_sort_def using object.hyps(1-3) by (rule sort_distinct_same_set)
  have m: "map (\<lambda>key. QuoteJSONString key @ ascii '':'' @ canonicalize (get_prop ps key))
          (Array_sort (Object_keys ps))
      = map (\<lambda>key. QuoteJSONString key @ ascii '':'' @ canonicalize (get_prop qs key))
          (Array_sort (Object_keys qs))"
    unfolding keys [symmetric] using object.IH
    by (intro map_cong refl) (simp add: Array_sort_def)
  show ?case
    by (simp add: m)
qed

text \<open>
  C1. Two values with the same keys bound to the same values, which differ only in the
  order of insertion of the keys, have the same canonical string and so the same
  digest; in particular the digests of \<open>{"a":1,"b":2}\<close> and \<open>{"b":2,"a":1}\<close>
  coincide (the witness).
\<close>

theorem canonicalize_key_order:
  assumes "same_up_to_key_order v1 v2"
  shows "canonicalize v1 = canonicalize v2 \<and> sha256Hex v1 = sha256Hex v2"
  using same_up_to_key_order_canonicalize [OF assms] by (simp add: sha256Hex_def)

theorem canonicalize_key_order_witness:
  "same_up_to_key_order
     (Object [(ascii ''a'', Prim (Number double_1)), (ascii ''b'', Prim (Number double_2))])
     (Object [(ascii ''b'', Prim (Number double_2)), (ascii ''a'', Prim (Number double_1))])
   \<and> canonicalize
       (Object [(ascii ''a'', Prim (Number double_1)), (ascii ''b'', Prim (Number double_2))])
     = canonicalize
       (Object [(ascii ''b'', Prim (Number double_2)), (ascii ''a'', Prim (Number double_1))])
   \<and> sha256Hex
       (Object [(ascii ''a'', Prim (Number double_1)), (ascii ''b'', Prim (Number double_2))])
     = sha256Hex
       (Object [(ascii ''b'', Prim (Number double_2)), (ascii ''a'', Prim (Number double_1))])"
proof -
  have h: "same_up_to_key_order
     (Object [(ascii ''a'', Prim (Number double_1)), (ascii ''b'', Prim (Number double_2))])
     (Object [(ascii ''b'', Prim (Number double_2)), (ascii ''a'', Prim (Number double_1))])"
    by (rule same_up_to_key_order.object)
       (auto simp: Object_keys_def get_prop_def ascii_def intro: same_up_to_key_order.prim)
  from h canonicalize_key_order [OF h] show ?thesis by simp
qed

lemma not_surrogate_not_high: "\<not> is_surrogate u \<Longrightarrow> \<not> is_high_surrogate u"
  by (auto simp: is_surrogate_def is_high_surrogate_def word_le_nat_alt)

lemma code_points_bmp: "bmp_only s \<Longrightarrow> code_points s = map unat s"
proof (induction s rule: code_points.induct)
  case (3 u l us)
  from 3(3) have u: "\<not> is_high_surrogate u" and rest: "bmp_only (l # us)"
    by (simp_all add: bmp_only_def not_surrogate_not_high)
  from u rest 3(2) show ?case by simp
qed simp_all

lemma string_less_map_unat: "string_less a b \<Longrightarrow> map unat a < map unat b"
  by (induction a b rule: string_less.induct) (auto simp: word_less_nat_alt)

lemma sorted_wrt_string_less_code_points:
  assumes "sorted_wrt string_less ks" "list_all bmp_only ks"
  shows "sorted_wrt code_point_less ks"
proof -
  have "string_less a b \<Longrightarrow> code_point_less a b"
    if "a \<in> set ks" "b \<in> set ks" for a b
    using that assms(2) string_less_map_unat [of a b]
    by (simp add: code_point_less_def code_points_bmp list_all_iff)
  with assms(1) show ?thesis
    by (rule sorted_wrt_mono_rel [rotated]) 
qed

text \<open>
  C4, as the code has it. \<open>canonicalize\<close> emits the pairs of an object in the order of
  \<open>Object.keys(value).sort()\<close>: the keys ascend strictly in the lexicographic order of
  their UTF-16 code units. That is the order of their code points when no key holds a
  surrogate code unit.
\<close>

theorem canonicalize_object_order:
  assumes "distinct (Object_keys props)"
  shows "canonicalize (Object props) =
      ascii ''{'' @
      join (ascii '','')
        (map (\<lambda>k. QuoteJSONString k @ ascii '':'' @ canonicalize (get_prop props k))
           (Array_sort (Object_keys props))) @
      ascii ''}''
    \<and> mset (Array_sort (Object_keys props)) = mset (Object_keys props)
    \<and> sorted_wrt string_less (Array_sort (Object_keys props))
    \<and> (list_all bmp_only (Object_keys props) \<longrightarrow>
         sorted_wrt code_point_less (Array_sort (Object_keys props)))"
proof -
  have "sorted_wrt (<) (sort (Object_keys props))"
    using assms by (simp add: strict_sorted_iff)
  moreover have "(<) = string_less"
    by (intro ext) (simp add: string_less_iff)
  ultimately have s: "sorted_wrt string_less (Array_sort (Object_keys props))"
    by (simp add: Array_sort_def)
  have "list_all bmp_only (Array_sort (Object_keys props))"
    if "list_all bmp_only (Object_keys props)"
    using that by (simp add: list_all_iff Array_sort_def)
  with s show ?thesis
    by (auto simp: Array_sort_def intro: sorted_wrt_string_less_code_points)
qed

theorem canonicalize_object_order_witness:
  "distinct (Object_keys [(ascii ''b'', Prim (Number double_2)), (ascii ''a'', Prim Null)])
   \<and> canonicalize (Object [(ascii ''b'', Prim (Number double_2)), (ascii ''a'', Prim Null)]) =
      ascii ''{'' @
      join (ascii '','')
        (map (\<lambda>k. QuoteJSONString k @ ascii '':'' @
                canonicalize
                  (get_prop [(ascii ''b'', Prim (Number double_2)), (ascii ''a'', Prim Null)] k))
           [ascii ''a'', ascii ''b'']) @
      ascii ''}''
   \<and> list_all bmp_only [ascii ''b'', ascii ''a'']
   \<and> sorted_wrt code_point_less [ascii ''a'', ascii ''b'']"
proof -
  have d: "distinct (Object_keys [(ascii ''b'', Prim (Number double_2)), (ascii ''a'', Prim Null)])"
    by (simp add: Object_keys_def ascii_def)
  have k: "Array_sort (Object_keys [(ascii ''b'', Prim (Number double_2)), (ascii ''a'', Prim Null)])
      = [ascii ''a'', ascii ''b'']"
    by (simp add: Array_sort_def Object_keys_def ascii_def)
  have b: "list_all bmp_only [ascii ''b'', ascii ''a'']"
    by (simp add: bmp_only_def ascii_def is_surrogate_def)
  from canonicalize_object_order [OF d] d b show ?thesis
    unfolding k by (simp add: Object_keys_def)
qed

text \<open>
  The keys U+FF5E and U+1F600 (the surrogate pair D83D DE00): the second is emitted
  first, its first code unit being the smaller, though its code point is the larger.
\<close>

theorem canonicalize_astral_order_counterexample:
  "canonicalize
     (Object [([0xFF5E], Prim (Number double_1)), ([0xD83D, 0xDE00], Prim (Number double_2))])
     = [0x7B, 0x22, 0xD83D, 0xDE00, 0x22, 0x3A, 0x32, 0x2C, 0x22, 0xFF5E, 0x22, 0x3A, 0x31, 0x7D]
   \<and> code_point_less [0xFF5E] [0xD83D, 0xDE00]
   \<and> \<not> code_point_less [0xD83D, 0xDE00] [0xFF5E]"
  by (simp add: Array_sort_def Object_keys_def get_prop_def QuoteJSONString_def ascii_def
      Number_toString_1 Number_toString_2 is_high_surrogate_def
      is_low_surrogate_def code_point_less_def)

section \<open>The store model and the tree model agree\<close>

lemma map_option_list_SomeD:
  "map_option_list g xs = Some ys \<Longrightarrow> list_all2 (\<lambda>x y. g x = Some y) xs ys"
  by (induction xs arbitrary: ys) (auto split: Option.bind_splits)

lemma map_option_list_all_Some:
  "(\<And>x. x \<in> set xs \<Longrightarrow> g x = Some (g' x)) \<Longrightarrow> map_option_list g xs = Some (map g' xs)"
  by (induction xs) auto

lemma list_all2_ex_map:
  "list_all2 (\<lambda>x y. \<exists>t. R x t \<and> y = g t) xs ys \<Longrightarrow> \<exists>ts. list_all2 R xs ts \<and> ys = map g ts"
proof (induction rule: list_all2_induct)
  case Nil
  show ?case by simp
next
  case (Cons x xs y ys)
  then obtain t ts where "R x t" "y = g t" "list_all2 R xs ts" "ys = map g ts"
    by blast
  then have "list_all2 R (x # xs) (t # ts) \<and> y # ys = map g (t # ts)"
    by simp
  then show ?case by (rule exI)
qed

lemma keyed_list_all2_get_prop:
  "list_all2 (\<lambda>k kt. fst kt = k \<and> Q k (snd kt)) ks tps \<Longrightarrow> key \<in> set ks \<Longrightarrow>
   Q key (get_prop tps key)"
  by (induction rule: list_all2_induct) (auto simp: get_prop_def)

lemma keyed_list_all2_keys:
  "list_all2 (\<lambda>k kt. fst kt = k \<and> Q k (snd kt)) ks tps \<Longrightarrow> Object_keys tps = ks"
  by (induction rule: list_all2_induct) (auto simp: Object_keys_def)

lemma canonicalize_heap_PrimV: "canonicalize_heap h (PrimV p) = Some (JSON_stringify p)"
  by (subst canonicalize_heap.simps) simp

lemma canonicalize_heap_Ref:
  "canonicalize_heap h (Ref a) =
     (case lookup h a of
        None \<Rightarrow> None
      | Some c \<Rightarrow>
          (case contents c of
             ArrayC elems \<Rightarrow>
               Option.bind (map_option_list (\<lambda>item. canonicalize_heap h item) elems)
                 (\<lambda>items. Some (ascii ''['' @ join (ascii '','') items @ ascii '']''))
           | ObjectC props \<Rightarrow>
               Option.bind
                 (map_option_list
                    (\<lambda>key.
                       Option.bind (canonicalize_heap h (PrimV (String key)))
                         (\<lambda>canonicalKey.
                            Option.bind (canonicalize_heap h (get_prop props key))
                              (\<lambda>canonicalValue.
                                 Some (canonicalKey @ ascii '':'' @ canonicalValue))))
                    (Array_sort (Object_keys props)))
                 (\<lambda>entries. Some (ascii ''{'' @ join (ascii '','') entries @ ascii ''}''))))"
  by (subst canonicalize_heap.simps) (simp only: ref_value.case)

lemma denotes_canonicalize_heap:
  "denotes h v t \<Longrightarrow> canonicalize_heap h v = Some (canonicalize t)"
proof (induction rule: denotes.induct)
  case (prim p)
  show ?case by (simp add: canonicalize_heap_PrimV)
next
  case (array a c elems ts)
  from array.IH have "map_option_list (canonicalize_heap h) elems = Some (map canonicalize ts)"
    by (induction rule: list_all2_induct) auto
  then show ?case
    by (simp add: canonicalize_heap_Ref array.hyps(1,2))
next
  case (object a c props tprops)
  have keys: "Object_keys tprops = Object_keys props"
    using object.IH by (rule keyed_list_all2_keys)
  have val: "canonicalize_heap h (get_prop props key) = Some (canonicalize (get_prop tprops key))"
    if "key \<in> set (Object_keys props)" for key
    using keyed_list_all2_get_prop [OF object.IH that] by simp
  have "map_option_list
          (\<lambda>key. Option.bind (canonicalize_heap h (PrimV (String key)))
             (\<lambda>canonicalKey. Option.bind (canonicalize_heap h (get_prop props key))
                (\<lambda>canonicalValue. Some (canonicalKey @ ascii '':'' @ canonicalValue))))
          (Array_sort (Object_keys props))
      = Some (map (\<lambda>key. QuoteJSONString key @ ascii '':'' @
                        canonicalize (get_prop tprops key)) (Array_sort (Object_keys props)))"
    by (rule map_option_list_all_Some)
       (simp add: val Array_sort_def canonicalize_heap_PrimV)
  then show ?case
    by (simp add: canonicalize_heap_Ref object.hyps(1,2) keys)
qed

lemma canonicalize_heap_denotes:
  assumes "canonicalize_heap h v = Some s"
  shows "\<exists>t. denotes h v t \<and> s = canonicalize t"
proof (induct rule: canonicalize_heap.raw_induct [OF _ assms])
  case (1 f h v s)
  show ?case
  proof (cases v)
    case (PrimV p)
    with 1(2) have "denotes h v (Prim p) \<and> s = canonicalize (Prim p)"
      by (simp add: denotes.prim)
    then show ?thesis by (rule exI)
  next
    case (Ref a)
    with 1(2) obtain c where c: "lookup h a = Some c"
      by (cases "lookup h a") auto
    show ?thesis
    proof (cases "contents c")
      case (ArrayC elems)
      with 1(2) Ref c obtain items where
        items: "map_option_list (f h) elems = Some items"
        and s: "s = ascii ''['' @ join (ascii '','') items @ ascii '']''"
        by (auto split: Option.bind_splits)
      from items have "list_all2 (\<lambda>x y. f h x = Some y) elems items"
        by (rule map_option_list_SomeD)
      then have "list_all2 (\<lambda>x y. \<exists>t. denotes h x t \<and> y = canonicalize t) elems items"
        by (rule list_all2_mono) (rule 1(1))
      then obtain ts where ts: "list_all2 (denotes h) elems ts" "items = map canonicalize ts"
        using list_all2_ex_map [of "denotes h" canonicalize elems items] by auto
      from c ArrayC ts(1) have "denotes h (Ref a) (Array ts)"
        by (rule denotes.array)
      with s ts(2) Ref have "denotes h v (Array ts) \<and> s = canonicalize (Array ts)"
        by simp
      then show ?thesis by (rule exI)
    next
      case (ObjectC props)
      let ?entry = "\<lambda>key. Option.bind (f h (PrimV (String key)))
             (\<lambda>canonicalKey. Option.bind (f h (get_prop props key))
                (\<lambda>canonicalValue. Some (canonicalKey @ ascii '':'' @ canonicalValue)))"
      from 1(2) Ref c ObjectC obtain entries where
        entries: "map_option_list ?entry (Array_sort (Object_keys props)) = Some entries"
        and s: "s = ascii ''{'' @ join (ascii '','') entries @ ascii ''}''"
        by (auto split: Option.bind_splits)
      from entries have all: "list_all2 (\<lambda>key e. ?entry key = Some e)
          (Array_sort (Object_keys props)) entries"
        by (rule map_option_list_SomeD)
      have ex: "\<exists>t. denotes h (get_prop props key) t \<and>
              ?entry key = Some (QuoteJSONString key @ ascii '':'' @ canonicalize t)"
        if "key \<in> set (Object_keys props)" for key
      proof -
        from that have "key \<in> set (Array_sort (Object_keys props))"
          by (simp add: Array_sort_def)
        then obtain i where "i < length (Array_sort (Object_keys props))"
          "Array_sort (Object_keys props) ! i = key"
          unfolding in_set_conv_nth by auto
        with all have e: "?entry key = Some (entries ! i)"
          unfolding list_all2_conv_all_nth by auto
        then obtain ck cv where ck: "f h (PrimV (String key)) = Some ck"
          and cv: "f h (get_prop props key) = Some cv"
          by (auto split: Option.bind_splits)
        from 1(1) [OF ck] have "ck = QuoteJSONString key"
          by (auto elim: denotes.cases)
        moreover from 1(1) [OF cv] obtain t where
          "denotes h (get_prop props key) t" "cv = canonicalize t"
          by auto
        ultimately have "denotes h (get_prop props key) t \<and>
              ?entry key = Some (QuoteJSONString key @ ascii '':'' @ canonicalize t)"
          using ck cv by simp
        then show ?thesis by (rule exI)
      qed
      define T where "T key = (SOME t. denotes h (get_prop props key) t \<and>
              ?entry key = Some (QuoteJSONString key @ ascii '':'' @ canonicalize t))" for key
      have T: "denotes h (get_prop props key) (T key) \<and>
          ?entry key = Some (QuoteJSONString key @ ascii '':'' @ canonicalize (T key))"
        if "key \<in> set (Object_keys props)" for key
        unfolding T_def using ex [OF that] by (rule someI_ex)
      define tprops where "tprops = map (\<lambda>k. (k, T k)) (Object_keys props)"
      have keys: "Object_keys tprops = Object_keys props"
        by (simp add: tprops_def Object_keys_def comp_def)
      have get: "get_prop tprops key = T key" if "key \<in> set (Object_keys props)" for key
        using that by (simp add: tprops_def get_prop_def map_of_map_restrict)
      have "list_all2 (\<lambda>k kt. fst kt = k \<and> denotes h (get_prop props k) (snd kt))
              (Object_keys props) tprops"
        using T by (simp add: tprops_def list_all2_conv_all_nth)
      with c ObjectC have d: "denotes h (Ref a) (Object tprops)"
        by (rule denotes.object)
      have "map_option_list ?entry (Array_sort (Object_keys props))
          = Some (map (\<lambda>key. QuoteJSONString key @ ascii '':'' @ canonicalize (T key))
                    (Array_sort (Object_keys props)))"
        by (rule map_option_list_all_Some) (simp add: T Array_sort_def)
      with entries have "entries = map (\<lambda>key. QuoteJSONString key @ ascii '':'' @ canonicalize (T key))
                    (Array_sort (Object_keys props))"
        by simp
      also have "\<dots> = map (\<lambda>key. QuoteJSONString key @ ascii '':'' @
                    canonicalize (get_prop tprops key)) (Array_sort (Object_keys props))"
        by (rule map_cong) (simp_all add: get Array_sort_def)
      finally have "s = canonicalize (Object tprops)"
        using s keys by simp
      with d Ref have "denotes h v (Object tprops) \<and> s = canonicalize (Object tprops)"
        by simp
      then show ?thesis by (rule exI)
    qed
  qed
qed

lemma canonicalize_heap_self_heap_aux:
  assumes "canonicalize_heap h v = Some s"
  shows "\<not> (h = self_heap \<and> v = Ref 0)"
proof (induct rule: canonicalize_heap.raw_induct [OF _ assms])
  case (1 f h v s)
  show ?case
  proof
    assume "h = self_heap \<and> v = Ref 0"
    with 1(2) obtain cv where "f self_heap (Ref 0) = Some cv"
      by (auto simp: self_heap_def lookup_def Array_sort_def Object_keys_def get_prop_def
          split: Option.bind_splits)
    from 1(1) [OF this] show False by simp
  qed
qed

section \<open>Reachability and freezing\<close>

lemma freeze_ext_refl: "freeze_ext h h"
  by (simp add: freeze_ext_def)

lemma freeze_ext_trans: "freeze_ext h1 h2 \<Longrightarrow> freeze_ext h2 h3 \<Longrightarrow> freeze_ext h1 h3"
  by (auto simp: freeze_ext_def)

lemma freeze_ext_Object_freeze: "freeze_ext h (Object_freeze h a)"
  by (auto simp: freeze_ext_def Object_freeze_def nth_list_update)

lemma freeze_ext_lookup:
  "freeze_ext h h' \<Longrightarrow> lookup h a = Some c \<Longrightarrow>
   \<exists>c'. lookup h' a = Some c' \<and> contents c' = contents c \<and> (frozen c \<longrightarrow> frozen c')"
  by (auto simp: freeze_ext_def lookup_def split: if_splits)

lemma freeze_ext_lookup_rev:
  "freeze_ext h h' \<Longrightarrow> lookup h' a = Some c' \<Longrightarrow>
   \<exists>c. lookup h a = Some c \<and> contents c' = contents c"
  by (auto simp: freeze_ext_def lookup_def split: if_splits)

lemma get_own_prop_values: "get_own c key = Some v \<Longrightarrow> v \<in> set (prop_values c)"
proof (cases c)
  case (ArrayC elems)
  assume "get_own c key = Some v"
  with ArrayC show ?thesis
    by (cases key) (auto split: if_splits)
next
  case (ObjectC props)
  assume "get_own c key = Some v"
  with ObjectC obtain k where k: "key = Name k" "map_of props k = Some v"
    by (cases key) auto
  then have "k \<in> set (Object_keys props)" "get_prop props k = v"
    by (auto simp: Object_keys_def get_prop_def dest: map_of_SomeD intro: rev_image_eqI)
  with ObjectC show ?thesis by auto
qed

lemma own_keys_get_own:
  "key \<in> set (own_keys c) \<Longrightarrow> \<exists>v. get_own c key = Some v"
proof (cases c)
  case (ArrayC elems)
  assume "key \<in> set (own_keys c)"
  with ArrayC show ?thesis by auto
next
  case (ObjectC props)
  assume "key \<in> set (own_keys c)"
  with ObjectC obtain k where "key = Name k" "k \<in> fst ` set props"
    by (auto simp: Object_keys_def)
  with ObjectC show ?thesis
    by (auto dest: weak_map_of_SomeI)
qed

lemma prop_values_get_own:
  "x \<in> set (prop_values c) \<Longrightarrow> \<exists>key \<in> set (own_keys c). get_own c key = Some x"
proof (cases c)
  case (ArrayC elems)
  assume "x \<in> set (prop_values c)"
  with ArrayC obtain i where "i < length elems" "elems ! i = x"
    by (auto simp: in_set_conv_nth)
  with ArrayC show ?thesis
    by (auto intro!: bexI [of _ "Idx i"])
next
  case (ObjectC props)
  assume "x \<in> set (prop_values c)"
  with ObjectC obtain k where k: "k \<in> set (Object_keys props)" "x = get_prop props k"
    by auto
  then have "map_of props k = Some x"
    by (auto simp: Object_keys_def get_prop_def dest: weak_map_of_SomeI)
  with ObjectC k show ?thesis
    by (auto intro!: bexI [of _ "Name k"])
qed

lemma reach_child:
  assumes "lookup h a = Some c" "x \<in> set (prop_values (contents c))" "b \<in> reach h x"
  shows "b \<in> reach h (Ref a)"
  using assms(3)
proof (induction rule: reach.induct)
  case (root b)
  with assms(1,2) show ?case
    by (auto intro: reach.step reach.root)
next
  case (step b c' d)
  then show ?case
    by (auto intro: reach.step)
qed

lemma reach_Ref_cases:
  assumes "b \<in> reach h (Ref a)"
  shows "b = a \<or> (\<exists>c x. lookup h a = Some c \<and> x \<in> set (prop_values (contents c)) \<and> b \<in> reach h x)"
  using assms
proof (induction rule: reach.induct)
  case (root b)
  then show ?case by simp
next
  case (step b c d)
  from step.IH show ?case
  proof
    assume "b = a"
    with step.hyps(2,3) have "lookup h a = Some c \<and> Ref d \<in> set (prop_values (contents c))
        \<and> d \<in> reach h (Ref d)"
      by (simp add: reach.root)
    then show ?thesis by blast
  next
    assume "\<exists>c x. lookup h a = Some c \<and> x \<in> set (prop_values (contents c)) \<and> b \<in> reach h x"
    then obtain c0 x where "lookup h a = Some c0" "x \<in> set (prop_values (contents c0))"
      "b \<in> reach h x"
      by blast
    moreover from this(3) step.hyps(2,3) have "d \<in> reach h x"
      by (rule reach.step)
    ultimately show ?thesis by blast
  qed
qed

lemma reach_PrimV: "reach h (PrimV p) = {}"
proof -
  have "False" if "a \<in> reach h (PrimV p)" for a
    using that by (induction rule: reach.induct) auto
  then show ?thesis by auto
qed

lemma reach_freeze_ext_sub:
  assumes "freeze_ext h h'" "a \<in> reach h v"
  shows "a \<in> reach h' v"
  using assms(2)
proof (induction rule: reach.induct)
  case (root a)
  then show ?case by (rule reach.root)
next
  case (step a c b)
  from freeze_ext_lookup [OF assms(1) step.hyps(2)] obtain c' where
    "lookup h' a = Some c'" "contents c' = contents c"
    by blast
  with step show ?case
    by (auto intro: reach.step)
qed

lemma reach_freeze_ext_sup:
  assumes "freeze_ext h h'" "a \<in> reach h' v"
  shows "a \<in> reach h v"
  using assms(2)
proof (induction rule: reach.induct)
  case (root a)
  then show ?case by (rule reach.root)
next
  case (step a c' b)
  from freeze_ext_lookup_rev [OF assms(1) step.hyps(2)] obtain c where
    "lookup h a = Some c" "contents c' = contents c"
    by blast
  with step show ?case
    by (auto intro: reach.step)
qed

lemma reach_freeze_ext: "freeze_ext h h' \<Longrightarrow> reach h' v = reach h v"
  using reach_freeze_ext_sub reach_freeze_ext_sup by blast

section \<open>Unfoldings and cycles\<close>

lemma list_all2_exI:
  "(\<And>x. x \<in> set xs \<Longrightarrow> \<exists>t. R x t) \<Longrightarrow> \<exists>ts. list_all2 R xs ts"
proof (induction xs)
  case Nil
  show ?case by simp
next
  case (Cons x xs)
  then obtain t ts where "R x t" "list_all2 R xs ts"
    by (meson list.set_intros)
  then have "list_all2 R (x # xs) (t # ts)"
    by simp
  then show ?case by (rule exI)
qed

lemma elem_le_sum_list_map: "x \<in> set xs \<Longrightarrow> (f x :: nat) \<le> sum_list (map f xs)"
  by (induction xs) auto

lemma list_all2_in_setD:
  "list_all2 P xs ys \<Longrightarrow> x \<in> set xs \<Longrightarrow> \<exists>y \<in> set ys. P x y"
  by (induction rule: list_all2_induct) auto

lemma denotes_Ref_lookup: "denotes h (Ref a) t \<Longrightarrow> \<exists>c. lookup h a = Some c"
  by (auto elim: denotes.cases)

lemma denotes_children:
  assumes "denotes h (Ref a) t" "lookup h a = Some c" "x \<in> set (prop_values (contents c))"
  shows "\<exists>t'. denotes h x t' \<and> vsize t' < vsize t"
  using assms(1)
proof (cases rule: denotes.cases)
  case (array c' elems ts)
  with assms(2,3) have "x \<in> set elems"
    by simp
  from list_all2_in_setD [OF array(4) this] obtain t' where t': "t' \<in> set ts" "denotes h x t'"
    by auto
  from t'(1) have "vsize t' \<le> sum_list (map vsize ts)"
    by (rule elem_le_sum_list_map)
  with array(1) t'(2) have "denotes h x t' \<and> vsize t' < vsize t"
    by simp
  then show ?thesis by (rule exI)
next
  case (object c' props tprops)
  with assms(2,3) obtain k where k: "k \<in> set (Object_keys props)" "x = get_prop props k"
    by auto
  from keyed_list_all2_get_prop [OF object(4) k(1)]
  have d: "denotes h x (get_prop tprops k)"
    using k(2) by simp
  from keyed_list_all2_keys [OF object(4)] k(1) have "k \<in> set (Object_keys tprops)"
    by simp
  then have "vsize (get_prop tprops k) < vsize (Object tprops)"
    by (rule get_prop_vsize)
  with object(1) d have "denotes h x (get_prop tprops k) \<and> vsize (get_prop tprops k) < vsize t"
    by simp
  then show ?thesis by (rule exI)
qed

lemma denotes_from_children:
  assumes "lookup h a = Some c"
    and "\<And>x. x \<in> set (prop_values (contents c)) \<Longrightarrow> \<exists>t. denotes h x t"
  shows "\<exists>t. denotes h (Ref a) t"
proof (cases "contents c")
  case (ArrayC elems)
  with assms(2) have "\<exists>ts. list_all2 (denotes h) elems ts"
    by (intro list_all2_exI [of elems "denotes h"]) simp
  then obtain ts where "list_all2 (denotes h) elems ts" ..
  with assms(1) ArrayC have "denotes h (Ref a) (Array ts)"
    by (rule denotes.array)
  then show ?thesis by (rule exI)
next
  case (ObjectC props)
  define T where "T k = (SOME t. denotes h (get_prop props k) t)" for k
  have T: "denotes h (get_prop props k) (T k)" if "k \<in> set (Object_keys props)" for k
  proof -
    from that ObjectC have "get_prop props k \<in> set (prop_values (contents c))"
      by simp
    then have "\<exists>t. denotes h (get_prop props k) t"
      by (rule assms(2))
    then show ?thesis
      unfolding T_def by (rule someI_ex)
  qed
  define tprops where "tprops = map (\<lambda>k. (k, T k)) (Object_keys props)"
  have "list_all2 (\<lambda>k kt. fst kt = k \<and> denotes h (get_prop props k) (snd kt))
          (Object_keys props) tprops"
    using T by (simp add: tprops_def list_all2_conv_all_nth)
  with assms(1) ObjectC have "denotes h (Ref a) (Object tprops)"
    by (rule denotes.object)
  then show ?thesis by (rule exI)
qed

lemma denotes_agree:
  assumes "denotes h v t" "\<And>a. a \<in> reach h v \<Longrightarrow> lookup h' a = lookup h a"
  shows "denotes h' v t"
  using assms
proof (induction "vsize t" arbitrary: v t rule: less_induct)
  case less
  show ?case
  proof (cases v)
    case (PrimV p)
    with less.prems(1) show ?thesis
      by (auto elim: denotes.cases intro: denotes.prim)
  next
    case (Ref a)
    have child: "denotes h' x t'"
      if "lookup h a = Some c" "x \<in> set (prop_values (contents c))"
        "denotes h x t'" "vsize t' < vsize t" for c x t'
    proof (rule less.hyps [OF that(4,3)])
      fix b assume "b \<in> reach h x"
      with that(1,2) have "b \<in> reach h v"
        unfolding Ref by (rule reach_child)
      then show "lookup h' b = lookup h b" by (rule less.prems(2))
    qed
    have a: "lookup h' a = lookup h a"
      by (rule less.prems(2)) (simp add: Ref reach.root)
    from less.prems(1) [unfolded Ref] show ?thesis
    proof (cases rule: denotes.cases)
      case (array c elems ts)
      have "list_all2 (denotes h') elems ts"
        unfolding list_all2_conv_all_nth
      proof (intro conjI allI impI)
        show "length elems = length ts"
          using array(4) by (rule list_all2_lengthD)
      next
        fix i assume i: "i < length elems"
        with array(4) have d: "denotes h (elems ! i) (ts ! i)"
          by (simp add: list_all2_conv_all_nth)
        from i array(4) have "ts ! i \<in> set ts"
          by (simp add: list_all2_conv_all_nth)
        then have "vsize (ts ! i) \<le> sum_list (map vsize ts)"
          by (rule elem_le_sum_list_map)
        with array(1) have "vsize (ts ! i) < vsize t" by simp
        with array(2,3) i d show "denotes h' (elems ! i) (ts ! i)"
          by (intro child [of c]) simp_all
      qed
      with array(2,3) a have "denotes h' (Ref a) (Array ts)"
        by (intro denotes.array [of h' a c]) simp_all
      with array(1) Ref show ?thesis by simp
    next
      case (object c props tprops)
      have keys: "Object_keys tprops = Object_keys props"
        using object(4) by (rule keyed_list_all2_keys)
      have "list_all2 (\<lambda>k kt. fst kt = k \<and> denotes h' (get_prop props k) (snd kt))
          (Object_keys props) tprops"
        unfolding list_all2_conv_all_nth
      proof (intro conjI allI impI)
        show "length (Object_keys props) = length tprops"
          using object(4) by (rule list_all2_lengthD)
      next
        fix i assume i: "i < length (Object_keys props)"
        with object(4) show "fst (tprops ! i) = Object_keys props ! i"
          by (simp add: list_all2_conv_all_nth)
      next
        fix i assume i: "i < length (Object_keys props)"
        with object(4) have d: "denotes h (get_prop props (Object_keys props ! i)) (snd (tprops ! i))"
          by (simp add: list_all2_conv_all_nth)
        from i object(4) have "tprops ! i \<in> set tprops"
          by (simp add: list_all2_conv_all_nth)
        then have "vsize (snd (tprops ! i)) \<le> sum_list (map (\<lambda>kv. vsize (snd kv)) tprops)"
          by (rule elem_le_sum_list_map)
        with object(1) have "vsize (snd (tprops ! i)) < vsize t" by simp
        with object(2,3) i d show "denotes h' (get_prop props (Object_keys props ! i)) (snd (tprops ! i))"
          by (intro child [of c]) simp_all
      qed
      with object(2,3) a have "denotes h' (Ref a) (Object tprops)"
        by (intro denotes.object [of h' a c]) simp_all
      with object(1) Ref show ?thesis by simp
    qed
  qed
qed

lemma denotes_freeze_ext:
  assumes "freeze_ext h h'"
  shows "denotes h' v t \<longleftrightarrow> denotes h v t"
proof -
  have *: "denotes h2 v t"
    if "denotes h1 v t" "\<And>a c. lookup h1 a = Some c \<Longrightarrow>
        \<exists>c'. lookup h2 a = Some c' \<and> contents c' = contents c" for h1 h2
    using that(1)
  proof (induction rule: denotes.induct)
    case (prim p)
    show ?case by (rule denotes.prim)
  next
    case (array a c elems ts)
    from that(2) [OF array.hyps(1)] obtain c' where "lookup h2 a = Some c'"
      "contents c' = contents c"
      by blast
    moreover from array.IH have "list_all2 (denotes h2) elems ts"
      by (rule list_all2_mono) simp
    ultimately show ?case
      using array.hyps(2) by (intro denotes.array [of h2 a c']) simp_all
  next
    case (object a c props tprops)
    from that(2) [OF object.hyps(1)] obtain c' where "lookup h2 a = Some c'"
      "contents c' = contents c"
      by blast
    moreover from object.IH
    have "list_all2 (\<lambda>k kt. fst kt = k \<and> denotes h2 (get_prop props k) (snd kt))
        (Object_keys props) tprops"
      by (rule list_all2_mono) simp
    ultimately show ?case
      using object.hyps(2) by (intro denotes.object [of h2 a c']) simp_all
  qed
  show ?thesis
  proof
    assume "denotes h' v t"
    then show "denotes h v t"
      by (rule *) (use freeze_ext_lookup_rev [OF assms] in metis)
  next
    assume "denotes h v t"
    then show "denotes h' v t"
      by (rule *) (use freeze_ext_lookup [OF assms] in metis)
  qed
qed

lemma denotes_reach:
  assumes "denotes h v t" "a \<in> reach h v"
  shows "\<exists>t'. denotes h (Ref a) t' \<and> vsize t' \<le> vsize t"
  using assms(2)
proof (induction rule: reach.induct)
  case (root a)
  with assms(1) have "denotes h (Ref a) t \<and> vsize t \<le> vsize t"
    by simp
  then show ?case by (rule exI)
next
  case (step a c b)
  then obtain t1 where t1: "denotes h (Ref a) t1" "vsize t1 \<le> vsize t"
    by blast
  from denotes_children [OF t1(1) step.hyps(2,3)] obtain t2 where
    "denotes h (Ref b) t2" "vsize t2 < vsize t1"
    by blast
  with t1(2) have "denotes h (Ref b) t2 \<and> vsize t2 \<le> vsize t"
    by simp
  then show ?case by (rule exI)
qed

lemma on_cycle_no_unfolding:
  assumes "on_cycle h a"
  shows "\<not> denotes h (Ref a) t"
proof (induction "vsize t" arbitrary: t rule: less_induct)
  case less
  show ?case
  proof
    assume d: "denotes h (Ref a) t"
    from assms obtain c x where c: "lookup h a = Some c" "x \<in> set (prop_values (contents c))"
      and a: "a \<in> reach h x"
      unfolding on_cycle_def by blast
    from denotes_children [OF d c] obtain t1 where t1: "denotes h x t1" "vsize t1 < vsize t"
      by blast
    from denotes_reach [OF t1(1) a] obtain t2 where t2: "denotes h (Ref a) t2" "vsize t2 \<le> vsize t1"
      by blast
    from t1(2) t2(2) have "vsize t2 < vsize t" by simp
    from less.hyps [OF this] t2(1) show False by simp
  qed
qed

lemma contains_cycle_no_unfolding:
  assumes "contains_cycle h v"
  shows "\<not> denotes h v t"
proof
  assume d: "denotes h v t"
  from assms obtain a where a: "a \<in> reach h v" "on_cycle h a"
    unfolding contains_cycle_def by blast
  from denotes_reach [OF d a(1)] obtain t' where "denotes h (Ref a) t'"
    by blast
  with on_cycle_no_unfolding [OF a(2)] show False by simp
qed

lemma denotes_valid:
  assumes "denotes h v t" "a \<in> reach h v"
  shows "a < length h"
proof -
  from denotes_reach [OF assms] obtain t' where "denotes h (Ref a) t'"
    by blast
  from denotes_Ref_lookup [OF this] show ?thesis
    by (auto simp: lookup_def split: if_splits)
qed

lemma child_rel_reach: "(b, a) \<in> child_rel h v \<Longrightarrow> b \<in> reach h v"
  by (auto simp: child_rel_def intro: reach.step)

lemma child_rel_descendant:
  assumes "(d, b) \<in> (child_rel h v)\<^sup>*"
  shows "d \<in> reach h (Ref b)"
  using assms
proof (induction rule: converse_rtrancl_induct)
  case base
  show ?case by (rule reach.root) simp
next
  case (step d d')
  from step.hyps(1) obtain c where "lookup h d' = Some c" "Ref d \<in> set (prop_values (contents c))"
    by (auto simp: child_rel_def)
  with step.IH show ?case
    by (rule reach.step)
qed

lemma child_rel_acyclic:
  assumes "\<not> contains_cycle h v"
  shows "acyclic (child_rel h v)"
  unfolding acyclic_def
proof (intro allI notI)
  fix a assume "(a, a) \<in> (child_rel h v)\<^sup>+"
  then obtain b where ab: "(a, b) \<in> (child_rel h v)\<^sup>*" and ba: "(b, a) \<in> child_rel h v"
    by (auto dest: tranclD2)
  from ba obtain c where a: "a \<in> reach h v" and c: "lookup h a = Some c"
    "Ref b \<in> set (prop_values (contents c))"
    by (auto simp: child_rel_def)
  from ab have "a \<in> reach h (Ref b)"
    by (rule child_rel_descendant)
  with c have "on_cycle h a"
    unfolding on_cycle_def by blast
  with a assms show False
    unfolding contains_cycle_def by blast
qed

lemma child_rel_finite:
  assumes "in_store h v"
  shows "finite (child_rel h v)"
proof (rule finite_subset)
  show "child_rel h v \<subseteq> {..< length h} \<times> {..< length h}"
  proof
    fix p assume p: "p \<in> child_rel h v"
    obtain b a where [simp]: "p = (b, a)" by (cases p)
    from p have "b \<in> reach h v"
      using child_rel_reach [of b a h v] by simp
    moreover from p have "a \<in> reach h v"
      by (simp add: child_rel_def)
    ultimately show "p \<in> {..< length h} \<times> {..< length h}"
      using assms by (simp add: in_store_def)
  qed
qed simp

lemma acyclic_unfolds:
  assumes "in_store h v" "\<not> contains_cycle h v"
  shows "\<exists>t. denotes h v t"
proof -
  have wf: "wf (child_rel h v)"
    using child_rel_finite [OF assms(1)] child_rel_acyclic [OF assms(2)]
    by (rule finite_acyclic_wf)
  have node: "a \<in> reach h v \<longrightarrow> (\<exists>t. denotes h (Ref a) t)" for a
    using wf
  proof (induction a rule: wf_induct_rule)
    case (less a)
    show ?case
    proof
      assume a: "a \<in> reach h v"
      with assms(1) have "lookup h a = Some (h ! a)"
        by (simp add: in_store_def lookup_def)
      then show "\<exists>t. denotes h (Ref a) t"
      proof (rule denotes_from_children)
        fix x assume x: "x \<in> set (prop_values (contents (h ! a)))"
        show "\<exists>t. denotes h x t"
        proof (cases x)
          case (PrimV p)
          then have "denotes h x (Prim p)"
            by (simp add: denotes.prim)
          then show ?thesis by (rule exI)
        next
          case (Ref b)
          with x a \<open>lookup h a = Some (h ! a)\<close> have ba: "(b, a) \<in> child_rel h v"
            by (auto simp: child_rel_def)
          from less.IH [OF ba] child_rel_reach [OF ba] Ref show ?thesis
            by simp
        qed
      qed
    qed
  qed
  show ?thesis
  proof (cases v)
    case (PrimV p)
    then have "denotes h v (Prim p)"
      by (simp add: denotes.prim)
    then show ?thesis by (rule exI)
  next
    case (Ref a)
    then have "a \<in> reach h v"
      by (simp add: reach.root)
    with node [of a] Ref show ?thesis by simp
  qed
qed

lemma denotes_in_store: "denotes h v t \<Longrightarrow> in_store h v"
  unfolding in_store_def using denotes_valid by blast

lemma denotes_iff_acyclic:
  "(\<exists>t. denotes h v t) \<longleftrightarrow> in_store h v \<and> \<not> contains_cycle h v"
  using acyclic_unfolds denotes_in_store contains_cycle_no_unfolding by blast

section \<open>deepFreeze\<close>

lemma deepFreeze_PrimV: "deepFreeze h (PrimV p) = Some (h, PrimV p)"
  by (subst deepFreeze.simps) simp

lemma freeze_visit_eq:
  "freeze_visit f a =
     (\<lambda>key h'. case Option.bind (lookup h' a) (\<lambda>c'. get_own (contents c') key) of
        None \<Rightarrow> Some h'
      | Some v \<Rightarrow> Option.bind (f h' v) (\<lambda>r. Some (fst r)))"
  by (intro ext) (simp add: freeze_visit_def)

lemma deepFreeze_Ref:
  "deepFreeze h (Ref a) =
     (case lookup h a of
        None \<Rightarrow> None
      | Some c \<Rightarrow>
          Option.bind
            (fold_option (freeze_visit deepFreeze a) (own_keys (contents c)) (Object_freeze h a))
            (\<lambda>h'. Some (h', Ref a)))"
  unfolding freeze_visit_eq by (subst deepFreeze.simps) simp

lemma fold_option_partial:
  assumes "fold_option g xs s = Some s'"
    and "\<And>x s1 s2. x \<in> set xs \<Longrightarrow> freeze_ext s s1 \<Longrightarrow> g x s1 = Some s2 \<Longrightarrow>
           freeze_ext s1 s2 \<and> Q x"
  shows "freeze_ext s s' \<and> (\<forall>x \<in> set xs. Q x)"
  using assms
proof (induction xs arbitrary: s)
  case Nil
  then show ?case by (simp add: freeze_ext_refl)
next
  case (Cons x xs)
  from Cons.prems(1) obtain s1 where s1: "g x s = Some s1" "fold_option g xs s1 = Some s'"
    by (auto split: Option.bind_splits)
  from Cons.prems(2) [of x s s1] s1(1) have x: "freeze_ext s s1" "Q x"
    by (simp_all add: freeze_ext_refl)
  have "freeze_ext s1 s' \<and> (\<forall>x \<in> set xs. Q x)"
  proof (rule Cons.IH [OF s1(2)])
    fix y s2 s3
    assume "y \<in> set xs" "freeze_ext s1 s2" "g y s2 = Some s3"
    with x(1) show "freeze_ext s2 s3 \<and> Q y"
      by (intro Cons.prems(2)) (auto intro: freeze_ext_trans)
  qed
  with x show ?case
    by (auto intro: freeze_ext_trans)
qed

lemma fold_option_total:
  assumes "\<And>x s1. x \<in> set xs \<Longrightarrow> freeze_ext s s1 \<Longrightarrow>
           \<exists>s2. g x s1 = Some s2 \<and> freeze_ext s1 s2 \<and> Q x s2"
    and "\<And>x s1 s2. Q x s1 \<Longrightarrow> freeze_ext s1 s2 \<Longrightarrow> Q x s2"
  shows "\<exists>s'. fold_option g xs s = Some s' \<and> freeze_ext s s' \<and> (\<forall>x \<in> set xs. Q x s')"
  using assms(1)
proof (induction xs arbitrary: s)
  case Nil
  then show ?case by (simp add: freeze_ext_refl)
next
  case (Cons x xs)
  from Cons.prems [of x s] obtain s1 where s1: "g x s = Some s1" "freeze_ext s s1" "Q x s1"
    by (auto simp: freeze_ext_refl)
  have "\<exists>s'. fold_option g xs s1 = Some s' \<and> freeze_ext s1 s' \<and> (\<forall>x \<in> set xs. Q x s')"
  proof (rule Cons.IH)
    fix y s2
    assume "y \<in> set xs" "freeze_ext s1 s2"
    with s1(2) show "\<exists>s3. g y s2 = Some s3 \<and> freeze_ext s2 s3 \<and> Q y s3"
      by (intro Cons.prems) (auto intro: freeze_ext_trans)
  qed
  then obtain s' where s': "fold_option g xs s1 = Some s'" "freeze_ext s1 s'"
    "\<forall>x \<in> set xs. Q x s'"
    by blast
  from s1(3) s'(2) have "Q x s'" by (rule assms(2))
  with s1 s' have "fold_option g (x # xs) s = Some s' \<and> freeze_ext s s' \<and>
      (\<forall>x \<in> set (x # xs). Q x s')"
    by (auto intro: freeze_ext_trans)
  then show ?case by (rule exI)
qed

lemma deepFreeze_returns:
  assumes "deepFreeze h v = Some r"
  shows "snd r = v \<and> freeze_ext h (fst r) \<and> (\<exists>t. denotes h v t)"
proof (induct rule: deepFreeze.raw_induct [OF _ assms])
  case (1 f h obj r)
  show ?case
  proof (cases obj)
    case (PrimV p)
    with 1(2) have "snd r = obj \<and> freeze_ext h (fst r) \<and> denotes h obj (Prim p)"
      by (auto simp: freeze_ext_refl intro: denotes.prim)
    then show ?thesis by blast
  next
    case (Ref a)
    with 1(2) obtain c where c: "lookup h a = Some c"
      by (cases "lookup h a") auto
    let ?h0 = "Object_freeze h a"
    from 1(2) Ref c obtain h' where
      fold: "fold_option (freeze_visit f a) (own_keys (contents c)) ?h0 = Some h'"
      and r: "r = (h', obj)"
      by (auto simp: freeze_visit_eq split: Option.bind_splits)
    have h0: "freeze_ext h ?h0"
      by (rule freeze_ext_Object_freeze)
    have "freeze_ext ?h0 h' \<and>
        (\<forall>key \<in> set (own_keys (contents c)).
           \<forall>x. get_own (contents c) key = Some x \<longrightarrow> (\<exists>t. denotes h x t))"
      using fold
    proof (rule fold_option_partial)
      fix key h1 h2
      assume key: "key \<in> set (own_keys (contents c))" and h1: "freeze_ext ?h0 h1"
        and visit: "freeze_visit f a key h1 = Some h2"
      from h0 h1 have hh1: "freeze_ext h h1" by (rule freeze_ext_trans)
      from freeze_ext_lookup [OF hh1 c] obtain c1 where
        c1: "lookup h1 a = Some c1" "contents c1 = contents c"
        by blast
      from own_keys_get_own [OF key] obtain x where x: "get_own (contents c) key = Some x"
        by blast
      with visit c1 obtain r' where r': "f h1 x = Some r'" "h2 = fst r'"
        by (auto simp: freeze_visit_def split: Option.bind_splits)
      from 1(1) [OF r'(1)] obtain t where "freeze_ext h1 (fst r')" "denotes h1 x t"
        by blast
      with hh1 r'(2) x show "freeze_ext h1 h2 \<and>
          (\<forall>x. get_own (contents c) key = Some x \<longrightarrow> (\<exists>t. denotes h x t))"
        by (auto simp: denotes_freeze_ext)
    qed
    then have ext: "freeze_ext ?h0 h'"
      and kids: "\<And>key x. key \<in> set (own_keys (contents c)) \<Longrightarrow>
          get_own (contents c) key = Some x \<Longrightarrow> \<exists>t. denotes h x t"
      by blast+
    have "\<exists>t. denotes h (Ref a) t"
      using c
    proof (rule denotes_from_children)
      fix x assume "x \<in> set (prop_values (contents c))"
      from prop_values_get_own [OF this] obtain key where
        "key \<in> set (own_keys (contents c))" "get_own (contents c) key = Some x"
        by blast
      then show "\<exists>t. denotes h x t" by (rule kids)
    qed
    with r Ref h0 ext show ?thesis
      by (auto intro: freeze_ext_trans)
  qed
qed

lemma deepFreeze_total:
  assumes "denotes h v t" "freeze_ext h h1"
  shows "\<exists>h2. deepFreeze h1 v = Some (h2, v) \<and> freeze_ext h1 h2 \<and>
           (\<forall>b \<in> reach h v. b < length h2 \<and> frozen (h2 ! b))"
  using assms
proof (induction "vsize t" arbitrary: v t h1 rule: less_induct)
  case less
  show ?case
  proof (cases v)
    case (PrimV p)
    then show ?thesis
      by (simp add: deepFreeze_PrimV freeze_ext_refl reach_PrimV)
  next
    case (Ref a)
    from less.prems(1) Ref obtain c where c: "lookup h a = Some c"
      using denotes_Ref_lookup by blast
    from freeze_ext_lookup [OF less.prems(2) c] obtain c1 where
      c1: "lookup h1 a = Some c1" "contents c1 = contents c"
      by blast
    let ?h0 = "Object_freeze h1 a"
    let ?Q = "\<lambda>key s. \<forall>x. get_own (contents c) key = Some x \<longrightarrow>
        (\<forall>b \<in> reach h x. b < length s \<and> frozen (s ! b))"
    have h0: "freeze_ext h1 ?h0"
      by (rule freeze_ext_Object_freeze)
    have hh0: "freeze_ext h ?h0"
      using less.prems(2) h0 by (rule freeze_ext_trans)
    have "\<exists>h'. fold_option (freeze_visit deepFreeze a) (own_keys (contents c)) ?h0 = Some h' \<and>
        freeze_ext ?h0 h' \<and> (\<forall>key \<in> set (own_keys (contents c)). ?Q key h')"
    proof (rule fold_option_total)
      fix key s1
      assume key: "key \<in> set (own_keys (contents c))" and s1: "freeze_ext ?h0 s1"
      from hh0 s1 have hs1: "freeze_ext h s1" by (rule freeze_ext_trans)
      from freeze_ext_lookup [OF hs1 c] obtain c2 where
        c2: "lookup s1 a = Some c2" "contents c2 = contents c"
        by blast
      from own_keys_get_own [OF key] obtain x where x: "get_own (contents c) key = Some x"
        by blast
      then have "x \<in> set (prop_values (contents c))"
        by (rule get_own_prop_values)
      from denotes_children [OF less.prems(1) [unfolded Ref] c this] obtain t' where
        t': "denotes h x t'" "vsize t' < vsize t"
        by blast
      from less.hyps [OF t'(2,1) hs1] obtain s2 where
        s2: "deepFreeze s1 x = Some (s2, x)" "freeze_ext s1 s2"
          "\<forall>b \<in> reach h x. b < length s2 \<and> frozen (s2 ! b)"
        by blast
      with c2 x have "freeze_visit deepFreeze a key s1 = Some s2 \<and> freeze_ext s1 s2 \<and> ?Q key s2"
        by (simp add: freeze_visit_def)
      then show "\<exists>s2. freeze_visit deepFreeze a key s1 = Some s2 \<and> freeze_ext s1 s2 \<and> ?Q key s2"
        by (rule exI)
    next
      fix key s1 s2
      assume "?Q key s1" "freeze_ext s1 s2"
      then show "?Q key s2"
        by (auto simp: freeze_ext_def)
    qed
    then obtain h' where h': "fold_option (freeze_visit deepFreeze a) (own_keys (contents c)) ?h0 = Some h'"
      "freeze_ext ?h0 h'" "\<And>key. key \<in> set (own_keys (contents c)) \<Longrightarrow> ?Q key h'"
      by blast
    from c1 have a: "a < length h1"
      by (simp add: lookup_def split: if_splits)
    then have "a < length ?h0" "frozen (?h0 ! a)"
      by (simp_all add: Object_freeze_def)
    with h'(2) have fa: "a < length h'" "frozen (h' ! a)"
      by (simp_all add: freeze_ext_def)
    have "b < length h' \<and> frozen (h' ! b)" if "b \<in> reach h (Ref a)" for b
      using reach_Ref_cases [OF that]
    proof
      assume "b = a"
      with fa show ?thesis by simp
    next
      assume "\<exists>c x. lookup h a = Some c \<and> x \<in> set (prop_values (contents c)) \<and> b \<in> reach h x"
      with c obtain x where x: "x \<in> set (prop_values (contents c))" "b \<in> reach h x"
        by auto
      from prop_values_get_own [OF x(1)] obtain key where
        "key \<in> set (own_keys (contents c))" "get_own (contents c) key = Some x"
        by blast
      with h'(3) [of key] x(2) show ?thesis by blast
    qed
    with c1 h'(1,2) h0 Ref have "deepFreeze h1 v = Some (h', v) \<and> freeze_ext h1 h' \<and>
           (\<forall>b \<in> reach h v. b < length h' \<and> frozen (h' ! b))"
      by (auto simp: deepFreeze_Ref intro: freeze_ext_trans)
    then show ?thesis by (rule exI)
  qed
qed

lemma fold_option_invariant:
  assumes "fold_option g xs s = Some s'" "I s"
    and "\<And>x s1 s2. x \<in> set xs \<Longrightarrow> I s1 \<Longrightarrow> g x s1 = Some s2 \<Longrightarrow> I s2"
  shows "I s'"
  using assms
proof (induction xs arbitrary: s)
  case Nil
  then show ?case by simp
next
  case (Cons x xs)
  from Cons.prems(1) obtain s1 where s1: "g x s = Some s1" "fold_option g xs s1 = Some s'"
    by (auto split: Option.bind_splits)
  from Cons.prems(3) [of x s s1] Cons.prems(2) s1(1) have "I s1"
    by simp
  with s1(2) show ?case
    by (rule Cons.IH) (rule Cons.prems(3), auto)
qed

lemma deepFreeze_frame:
  assumes "deepFreeze h v = Some r"
  shows "freeze_ext h (fst r) \<and> (\<forall>b < length h. b \<notin> reach h v \<longrightarrow> fst r ! b = h ! b)"
proof (induct rule: deepFreeze.raw_induct [OF _ assms])
  case (1 f h obj r)
  show ?case
  proof (cases obj)
    case (PrimV p)
    with 1(2) show ?thesis
      by (auto simp: freeze_ext_refl)
  next
    case (Ref a)
    with 1(2) obtain c where c: "lookup h a = Some c"
      by (cases "lookup h a") auto
    let ?h0 = "Object_freeze h a"
    let ?I = "\<lambda>s. freeze_ext h s \<and> (\<forall>b < length h. b \<notin> reach h (Ref a) \<longrightarrow> s ! b = h ! b)"
    from 1(2) Ref c obtain h' where
      fold: "fold_option (freeze_visit f a) (own_keys (contents c)) ?h0 = Some h'"
      and r: "r = (h', obj)"
      by (auto simp: freeze_visit_eq split: Option.bind_splits)
    have root: "a \<in> reach h (Ref a)"
      by (rule reach.root) simp
    have start: "?I ?h0"
    proof (intro conjI allI impI)
      show "freeze_ext h ?h0" by (rule freeze_ext_Object_freeze)
    next
      fix b assume "b < length h" "b \<notin> reach h (Ref a)"
      with root have "b \<noteq> a" by auto
      then show "?h0 ! b = h ! b"
        by (simp add: Object_freeze_def)
    qed
    have "?I h'"
      using fold start
    proof (rule fold_option_invariant)
      fix key s1 s2
      assume key: "key \<in> set (own_keys (contents c))" and s1: "?I s1"
        and visit: "freeze_visit f a key s1 = Some s2"
      from s1 have hs1: "freeze_ext h s1" by simp
      from freeze_ext_lookup [OF hs1 c] obtain c1 where
        c1: "lookup s1 a = Some c1" "contents c1 = contents c"
        by blast
      from own_keys_get_own [OF key] obtain x where x: "get_own (contents c) key = Some x"
        by blast
      with visit c1 obtain r' where r': "f s1 x = Some r'" "s2 = fst r'"
        by (auto simp: freeze_visit_def split: Option.bind_splits)
      from 1(1) [OF r'(1)] r'(2) have step: "freeze_ext s1 s2"
        "\<And>b. b < length s1 \<Longrightarrow> b \<notin> reach s1 x \<Longrightarrow> s2 ! b = s1 ! b"
        by simp_all
      from hs1 have len: "length s1 = length h"
        by (simp add: freeze_ext_def)
      from hs1 have rs: "reach s1 x = reach h x"
        by (rule reach_freeze_ext)
      from x have "x \<in> set (prop_values (contents c))"
        by (rule get_own_prop_values)
      from reach_child [OF c this] have sub: "reach h x \<subseteq> reach h (Ref a)"
        by (rule subsetI)
      show "?I s2"
      proof (intro conjI allI impI)
        from hs1 step(1) show "freeze_ext h s2" by (rule freeze_ext_trans)
      next
        fix b assume b: "b < length h" "b \<notin> reach h (Ref a)"
        with sub have "b \<notin> reach s1 x" using rs by auto
        with step(2) [of b] b(1) len have "s2 ! b = s1 ! b" by simp
        with s1 b show "s2 ! b = h ! b" by simp
      qed
    qed
    with r Ref show ?thesis by simp
  qed
qed

section \<open>Malformed input and cycles\<close>

lemma deepFreeze_sample: "deepFreeze sample_heap (Ref 0) = Some (sample_frozen, Ref 0)"
  by (simp add: sample_heap_def sample_frozen_def deepFreeze_Ref deepFreeze_PrimV
      freeze_visit_def lookup_def Object_freeze_def Object_keys_def ascii_def)

lemma denotes_sample: "denotes sample_heap (Ref 0) sample_tree"
proof -
  have inner: "denotes sample_heap (Ref 1) (Array [Prim Null, Prim (String (ascii ''x''))])"
    by (rule denotes.array
        [of _ _ "\<lparr>frozen = False, contents = ArrayC [PrimV Null, PrimV (String (ascii ''x''))]\<rparr>"
           "[PrimV Null, PrimV (String (ascii ''x''))]"])
       (simp_all add: sample_heap_def lookup_def denotes.prim)
  show ?thesis
    unfolding sample_tree_def
  proof (rule denotes.object
        [of _ _ "\<lparr>frozen = False,
            contents = ObjectC [(ascii ''list'', Ref 1), (ascii ''n'', PrimV (Number double_1))]\<rparr>"
           "[(ascii ''list'', Ref 1), (ascii ''n'', PrimV (Number double_1))]"])
    show "lookup sample_heap 0 = Some \<lparr>frozen = False,
            contents = ObjectC [(ascii ''list'', Ref 1), (ascii ''n'', PrimV (Number double_1))]\<rparr>"
      by (simp add: sample_heap_def lookup_def)
    show "contents \<lparr>frozen = False,
            contents = ObjectC [(ascii ''list'', Ref 1), (ascii ''n'', PrimV (Number double_1))]\<rparr>
        = ObjectC [(ascii ''list'', Ref 1), (ascii ''n'', PrimV (Number double_1))]"
      by simp
    show "list_all2 (\<lambda>k kt. fst kt = k \<and>
            denotes sample_heap
              (get_prop [(ascii ''list'', Ref 1), (ascii ''n'', PrimV (Number double_1))] k) (snd kt))
          (Object_keys [(ascii ''list'', Ref 1), (ascii ''n'', PrimV (Number double_1))])
          [(ascii ''list'', Array [Prim Null, Prim (String (ascii ''x''))]),
           (ascii ''n'', Prim (Number double_1))]"
      using inner by (simp add: Object_keys_def get_prop_def ascii_def denotes.prim)
  qed
qed

lemma contains_cycle_self_heap: "contains_cycle self_heap (Ref 0)"
proof -
  have r: "0 \<in> reach self_heap (Ref 0)"
    by (rule reach.root) simp
  have "lookup self_heap 0 = Some \<lparr>frozen = False, contents = ObjectC [(ascii ''self'', Ref 0)]\<rparr>"
    by (simp add: self_heap_def lookup_def)
  moreover have "Ref 0 \<in> set (prop_values (contents \<lparr>frozen = False, contents = ObjectC [(ascii ''self'', Ref 0)]\<rparr>))"
    by (simp add: Object_keys_def get_prop_def)
  ultimately have "on_cycle self_heap 0"
    unfolding on_cycle_def using r by blast
  with r show ?thesis
    unfolding contains_cycle_def by blast
qed

lemma canonicalize_heap_cycle:
  assumes "contains_cycle h v"
  shows "canonicalize_heap h v = None"
proof (cases "canonicalize_heap h v")
  case None
  then show ?thesis .
next
  case (Some s)
  from canonicalize_heap_denotes [OF this] contains_cycle_no_unfolding [OF assms]
  show ?thesis by blast
qed

lemma deepFreeze_cycle:
  assumes "contains_cycle h v"
  shows "deepFreeze h v = None"
proof (cases "deepFreeze h v")
  case None
  then show ?thesis .
next
  case (Some r)
  from deepFreeze_returns [OF this] contains_cycle_no_unfolding [OF assms]
  show ?thesis by blast
qed

text \<open>
  A non-finite number is not rejected: \<open>canonicalize\<close> returns the string \<open>null\<close> for
  it. On the object that contains itself, \<open>canonicalize\<close> does not return.
\<close>

theorem canonicalize_malformed_counterexample:
  "canonicalize (Prim (Number NaN)) = ascii ''null''
   \<and> canonicalize_heap self_heap (PrimV (Number NaN)) = Some (ascii ''null'')
   \<and> contains_cycle self_heap (Ref 0)
   \<and> canonicalize_heap self_heap (Ref 0) = None"
  using contains_cycle_self_heap canonicalize_heap_cycle [OF contains_cycle_self_heap]
  by (simp add: canonicalize_heap_PrimV)

text \<open>
  C3, as the code has it. \<open>canonicalize\<close> has no failing branch. For a non-finite number it
  returns the string \<open>null\<close>. For a value without a cycle, which unfolds to a finite tree,
  it returns the canonical string of that tree, and whenever it returns, its result is the
  whole canonical string of such a tree, never a part of one. On a value that contains a
  cycle the recursion does not end and nothing is returned.
\<close>

theorem canonicalize_heap_outcomes:
  "(\<not> finite_number x \<longrightarrow> canonicalize_heap h (PrimV (Number x)) = Some (ascii ''null''))
   \<and> (in_store h v \<and> \<not> contains_cycle h v \<longrightarrow>
        (\<exists>t. denotes h v t \<and> canonicalize_heap h v = Some (canonicalize t)))
   \<and> (denotes h v t \<longrightarrow> canonicalize_heap h v = Some (canonicalize t))
   \<and> (canonicalize_heap h v = Some s \<longrightarrow> (\<exists>t. denotes h v t \<and> s = canonicalize t))
   \<and> (contains_cycle h v \<longrightarrow> canonicalize_heap h v = None)"
proof (intro conjI impI)
  assume "\<not> finite_number x"
  then show "canonicalize_heap h (PrimV (Number x)) = Some (ascii ''null'')"
    by (cases x) (simp_all add: canonicalize_heap_PrimV)
next
  assume "in_store h v \<and> \<not> contains_cycle h v"
  then obtain t' where "denotes h v t'"
    using acyclic_unfolds by blast
  then have "denotes h v t' \<and> canonicalize_heap h v = Some (canonicalize t')"
    by (simp add: denotes_canonicalize_heap)
  then show "\<exists>t. denotes h v t \<and> canonicalize_heap h v = Some (canonicalize t)"
    by (rule exI)
next
  assume "denotes h v t"
  then show "canonicalize_heap h v = Some (canonicalize t)"
    by (rule denotes_canonicalize_heap)
next
  assume "canonicalize_heap h v = Some s"
  then show "\<exists>t. denotes h v t \<and> s = canonicalize t"
    by (rule canonicalize_heap_denotes)
next
  assume "contains_cycle h v"
  then show "canonicalize_heap h v = None"
    by (rule canonicalize_heap_cycle)
qed

theorem canonicalize_heap_outcomes_witness:
  "\<not> finite_number PosInfinity
   \<and> canonicalize_heap sample_heap (PrimV (Number PosInfinity)) = Some (ascii ''null'')
   \<and> in_store sample_heap (Ref 0) \<and> \<not> contains_cycle sample_heap (Ref 0)
   \<and> denotes sample_heap (Ref 0) sample_tree
   \<and> canonicalize_heap sample_heap (Ref 0) = Some (canonicalize sample_tree)
   \<and> (\<exists>t. denotes sample_heap (Ref 0) t \<and>
         canonicalize_heap sample_heap (Ref 0) = Some (canonicalize t))
   \<and> (\<exists>t. denotes sample_heap (Ref 0) t \<and> canonicalize sample_tree = canonicalize t)
   \<and> contains_cycle self_heap (Ref 0)
   \<and> canonicalize_heap self_heap (Ref 0) = None"
proof -
  have a: "in_store sample_heap (Ref 0) \<and> \<not> contains_cycle sample_heap (Ref 0)"
    using denotes_sample denotes_iff_acyclic by blast
  have 1: "canonicalize_heap sample_heap (Ref 0) = Some (canonicalize sample_tree)"
    using canonicalize_heap_outcomes [of PosInfinity sample_heap "Ref 0" sample_tree]
      denotes_sample by simp
  have 2: "\<exists>t. denotes sample_heap (Ref 0) t \<and> canonicalize sample_tree = canonicalize t"
    using canonicalize_heap_outcomes [of PosInfinity sample_heap "Ref 0" sample_tree
        "canonicalize sample_tree"] 1 by simp
  have 3: "canonicalize_heap sample_heap (PrimV (Number PosInfinity)) = Some (ascii ''null'')"
    using canonicalize_heap_outcomes [of PosInfinity sample_heap] by simp
  have 4: "canonicalize_heap self_heap (Ref 0) = None"
    using canonicalize_heap_outcomes [of PosInfinity self_heap "Ref 0"] contains_cycle_self_heap
    by simp
  have 5: "\<exists>t. denotes sample_heap (Ref 0) t \<and>
         canonicalize_heap sample_heap (Ref 0) = Some (canonicalize t)"
    using canonicalize_heap_outcomes [of PosInfinity sample_heap "Ref 0"] a by simp
  from 1 2 3 4 5 a denotes_sample contains_cycle_self_heap show ?thesis by simp
qed

text \<open>On the object that contains itself, \<open>deepFreeze\<close> does not return.\<close>

theorem deepFreeze_cycle_counterexample:
  "contains_cycle self_heap (Ref 0) \<and> deepFreeze self_heap (Ref 0) = None"
  using contains_cycle_self_heap deepFreeze_cycle [OF contains_cycle_self_heap] by simp

text \<open>
  C7, as the code has it. For every value without a cycle, \<open>deepFreeze\<close> terminates and
  returns its argument. In the store it leaves, every object reachable from the argument
  is frozen and has the properties it had, and every object that is not reachable from
  the argument is as it was, frozen or not: nothing else is changed. \<open>deepFreeze\<close> keeps
  no record of the objects it has visited: on a value that contains a cycle it does not
  return.
\<close>

theorem deepFreeze_outcomes:
  "(in_store h obj \<and> \<not> contains_cycle h obj \<longrightarrow>
      (\<exists>h'. deepFreeze h obj = Some (h', obj) \<and> freeze_ext h h' \<and>
         (\<forall>a \<in> reach h' obj. a < length h' \<and> frozen (h' ! a)) \<and>
         (\<forall>a < length h. a \<notin> reach h obj \<longrightarrow> h' ! a = h ! a)))
   \<and> (contains_cycle h obj \<longrightarrow> deepFreeze h obj = None)"
proof (intro conjI impI)
  assume "in_store h obj \<and> \<not> contains_cycle h obj"
  then obtain t where "denotes h obj t"
    using acyclic_unfolds by blast
  from deepFreeze_total [OF this freeze_ext_refl] obtain h' where
    h': "deepFreeze h obj = Some (h', obj)" "freeze_ext h h'"
      "\<forall>b \<in> reach h obj. b < length h' \<and> frozen (h' ! b)"
    by blast
  from h'(2) have "reach h' obj = reach h obj"
    by (rule reach_freeze_ext)
  moreover from deepFreeze_frame [OF h'(1)]
  have "\<forall>a < length h. a \<notin> reach h obj \<longrightarrow> h' ! a = h ! a"
    by simp
  ultimately have "deepFreeze h obj = Some (h', obj) \<and> freeze_ext h h' \<and>
         (\<forall>a \<in> reach h' obj. a < length h' \<and> frozen (h' ! a)) \<and>
         (\<forall>a < length h. a \<notin> reach h obj \<longrightarrow> h' ! a = h ! a)"
    using h' by simp
  then show "\<exists>h'. deepFreeze h obj = Some (h', obj) \<and> freeze_ext h h' \<and>
         (\<forall>a \<in> reach h' obj. a < length h' \<and> frozen (h' ! a)) \<and>
         (\<forall>a < length h. a \<notin> reach h obj \<longrightarrow> h' ! a = h ! a)"
    by (rule exI)
next
  assume "contains_cycle h obj"
  then show "deepFreeze h obj = None"
    by (rule deepFreeze_cycle)
qed

text \<open>
  On the example store the object at address 2 is not part of the argument: it is left
  unfrozen, while the two objects of the argument are frozen.
\<close>

theorem deepFreeze_outcomes_witness:
  "in_store sample_heap (Ref 0) \<and> \<not> contains_cycle sample_heap (Ref 0)
   \<and> (\<exists>h'. deepFreeze sample_heap (Ref 0) = Some (h', Ref 0) \<and> freeze_ext sample_heap h' \<and>
         (\<forall>a \<in> reach h' (Ref 0). a < length h' \<and> frozen (h' ! a)) \<and>
         (\<forall>a < length sample_heap. a \<notin> reach sample_heap (Ref 0) \<longrightarrow> h' ! a = sample_heap ! a))
   \<and> deepFreeze sample_heap (Ref 0) = Some (sample_frozen, Ref 0)
   \<and> 2 \<notin> reach sample_heap (Ref 0)
   \<and> sample_frozen ! 2 = sample_heap ! 2 \<and> \<not> frozen (sample_frozen ! 2)
   \<and> frozen (sample_frozen ! 0) \<and> frozen (sample_frozen ! 1)
   \<and> contains_cycle self_heap (Ref 0)
   \<and> deepFreeze self_heap (Ref 0) = None"
proof -
  have a: "in_store sample_heap (Ref 0) \<and> \<not> contains_cycle sample_heap (Ref 0)"
    using denotes_sample denotes_iff_acyclic by blast
  have sub: "b \<in> {0, 1}" if "b \<in> reach sample_heap (Ref 0)" for b
    using that
    by (induction rule: reach.induct)
       (auto simp: sample_heap_def lookup_def Object_keys_def get_prop_def ascii_def
          nth_Cons' split: if_splits)
  have out: "2 \<notin> reach sample_heap (Ref 0)"
    using sub [of 2] by auto
  have cells: "sample_frozen ! 2 = sample_heap ! 2 \<and> \<not> frozen (sample_frozen ! 2)
      \<and> frozen (sample_frozen ! 0) \<and> frozen (sample_frozen ! 1)"
    by (simp add: sample_frozen_def sample_heap_def)
  have m: "\<exists>h'. deepFreeze sample_heap (Ref 0) = Some (h', Ref 0) \<and> freeze_ext sample_heap h' \<and>
         (\<forall>a \<in> reach h' (Ref 0). a < length h' \<and> frozen (h' ! a)) \<and>
         (\<forall>a < length sample_heap. a \<notin> reach sample_heap (Ref 0) \<longrightarrow> h' ! a = sample_heap ! a)"
    using a deepFreeze_outcomes [of sample_heap "Ref 0"] by blast
  have n: "deepFreeze self_heap (Ref 0) = None"
    using deepFreeze_outcomes [of self_heap "Ref 0"] contains_cycle_self_heap by blast
  from a m n deepFreeze_sample out cells contains_cycle_self_heap
  show ?thesis by blast
qed

section \<open>Frozen values cannot change\<close>

lemma attempt_frozen:
  assumes "lookup h a = Some c" "frozen c"
  shows "lookup (attempt h w) a = Some c"
proof (cases w)
  case (Write b c')
  show ?thesis
  proof (cases "b = a")
    case True
    with assms Write show ?thesis by simp
  next
    case False
    with assms Write show ?thesis
      by (auto simp: lookup_def split: if_splits option.splits)
  qed
next
  case (Allocate c')
  with assms show ?thesis
    by (auto simp: lookup_def nth_append split: if_splits)
qed

lemma attempts_frozen:
  assumes "lookup h a = Some c" "frozen c"
  shows "lookup (attempts h ws) a = Some c"
  using assms unfolding attempts_def
proof (induction ws arbitrary: h)
  case Nil
  then show ?case by simp
next
  case (Cons w ws)
  from attempt_frozen [OF Cons.prems] have "lookup (attempt h w) a = Some c" .
  from Cons.IH [OF this Cons.prems(2)] show ?case by simp
qed

lemma read_path_agree:
  assumes "\<And>a. a \<in> reach h v \<Longrightarrow> lookup h2 a = lookup h a"
  shows "read_path h2 v p = read_path h v p"
  using assms
proof (induction p arbitrary: v)
  case Nil
  show ?case by simp
next
  case (Cons k ks)
  show ?case
  proof (cases v)
    case (PrimV p)
    then show ?thesis by simp
  next
    case (Ref a)
    have a: "lookup h2 a = lookup h a"
      by (rule Cons.prems) (simp add: Ref reach.root)
    show ?thesis
    proof (cases "lookup h a")
      case None
      with a Ref show ?thesis by simp
    next
      case (Some c)
      show ?thesis
      proof (cases "get_own (contents c) k")
        case None
        with a Some Ref show ?thesis by simp
      next
        case (Some x)
        then have x: "x \<in> set (prop_values (contents c))"
          by (rule get_own_prop_values)
        have "read_path h2 x ks = read_path h x ks"
        proof (rule Cons.IH)
          fix b assume "b \<in> reach h x"
          with \<open>lookup h a = Some c\<close> x have "b \<in> reach h (Ref a)"
            by (rule reach_child)
          then show "lookup h2 b = lookup h b"
            unfolding Ref [symmetric] by (rule Cons.prems)
        qed
        with a \<open>lookup h a = Some c\<close> Some Ref show ?thesis by simp
      qed
    qed
  qed
qed

text \<open>
  C6. After \<open>deepFreeze x\<close> has returned, whatever is then attempted on the objects of
  the store (through any reference: a reference is the address of the object, however it
  was obtained) and whatever is created, every object reachable from \<open>x\<close> is frozen and
  stays as it is, so that reading \<open>x\<close> along any path of keys and taking the canonical
  string of \<open>x\<close> give what they gave before.
\<close>

theorem deepFreeze_immutable:
  assumes "deepFreeze h x = Some (h', r)"
  shows "r = x
    \<and> (\<forall>a \<in> reach h' x. \<exists>c. lookup h' a = Some c \<and> frozen c \<and>
          lookup (attempts h' ws) a = Some c)
    \<and> read_path (attempts h' ws) x path = read_path h' x path
    \<and> canonicalize_heap (attempts h' ws) x = canonicalize_heap h' x"
proof -
  from deepFreeze_returns [OF assms] obtain t where r: "r = x" and t: "denotes h x t"
    by auto
  from deepFreeze_total [OF t freeze_ext_refl] assms r
  have ext: "freeze_ext h h'" and fr: "\<And>b. b \<in> reach h x \<Longrightarrow> b < length h' \<and> frozen (h' ! b)"
    by auto
  from ext have reach: "reach h' x = reach h x"
    by (rule reach_freeze_ext)
  have cell: "\<exists>c. lookup h' a = Some c \<and> frozen c \<and> lookup (attempts h' ws) a = Some c"
    if "a \<in> reach h' x" for a
  proof -
    from that reach fr [of a] have "lookup h' a = Some (h' ! a)" "frozen (h' ! a)"
      by (simp_all add: lookup_def)
    with attempts_frozen [OF this, of ws] show ?thesis by simp
  qed
  then have agree: "lookup (attempts h' ws) a = lookup h' a" if "a \<in> reach h' x" for a
    using that by fastforce
  from t ext have t': "denotes h' x t"
    by (simp add: denotes_freeze_ext)
  then have "denotes (attempts h' ws) x t"
    using agree by (rule denotes_agree)
  with t' have "canonicalize_heap (attempts h' ws) x = canonicalize_heap h' x"
    by (simp add: denotes_canonicalize_heap)
  moreover have "read_path (attempts h' ws) x path = read_path h' x path"
    using agree by (rule read_path_agree)
  ultimately show ?thesis
    using r cell by blast
qed

theorem deepFreeze_immutable_witness:
  "deepFreeze sample_heap (Ref 0) = Some (sample_frozen, Ref 0)
   \<and> read_path
        (attempts sample_frozen
           [Write 0 (ObjectC []), Write 1 (ArrayC [PrimV (Boolean True)]),
            Write 2 (ObjectC [(ascii ''list'', Ref 1)]), Allocate (ArrayC [Ref 0])])
        (Ref 0) [Name (ascii ''list''), Idx 1]
      = read_path sample_frozen (Ref 0) [Name (ascii ''list''), Idx 1]
   \<and> read_path sample_frozen (Ref 0) [Name (ascii ''list''), Idx 1]
      = Some (PrimV (String (ascii ''x'')))
   \<and> canonicalize_heap
        (attempts sample_frozen
           [Write 0 (ObjectC []), Write 1 (ArrayC [PrimV (Boolean True)]),
            Write 2 (ObjectC [(ascii ''list'', Ref 1)]), Allocate (ArrayC [Ref 0])])
        (Ref 0)
      = canonicalize_heap sample_frozen (Ref 0)
   \<and> lookup
        (attempts sample_frozen
           [Write 0 (ObjectC []), Write 1 (ArrayC [PrimV (Boolean True)]),
            Write 2 (ObjectC [(ascii ''list'', Ref 1)]), Allocate (ArrayC [Ref 0])]) 2
      = Some \<lparr>frozen = False, contents = ObjectC [(ascii ''list'', Ref 1)]\<rparr>"
proof -
  have "read_path sample_frozen (Ref 0) [Name (ascii ''list''), Idx 1]
      = Some (PrimV (String (ascii ''x'')))"
    by (simp add: sample_frozen_def lookup_def ascii_def)
  moreover have "lookup
        (attempts sample_frozen
           [Write 0 (ObjectC []), Write 1 (ArrayC [PrimV (Boolean True)]),
            Write 2 (ObjectC [(ascii ''list'', Ref 1)]), Allocate (ArrayC [Ref 0])]) 2
      = Some \<lparr>frozen = False, contents = ObjectC [(ascii ''list'', Ref 1)]\<rparr>"
    by (simp add: attempts_def sample_frozen_def lookup_def)
  ultimately show ?thesis
    using deepFreeze_sample
      deepFreeze_immutable [OF deepFreeze_sample,
        of "[Write 0 (ObjectC []), Write 1 (ArrayC [PrimV (Boolean True)]),
            Write 2 (ObjectC [(ascii ''list'', Ref 1)]), Allocate (ArrayC [Ref 0])]"
           "[Name (ascii ''list''), Idx 1]"]
    by simp
qed

section \<open>deepClone\<close>

lemma deepClone_PrimV: "deepClone h (PrimV p) = Some (h, PrimV p)"
  by (subst deepClone.simps) simp

lemma deepClone_Ref:
  "deepClone h (Ref a) =
     (case lookup h a of
        None \<Rightarrow> None
      | Some c \<Rightarrow>
          (case contents c of
             ArrayC elems \<Rightarrow>
               (case allocate h (ArrayC []) of
                  (h0, mapped) \<Rightarrow>
                    Option.bind
                      (fold_option
                         (\<lambda>item h'.
                            Option.bind (deepClone h' item)
                              (\<lambda>r. Some (array_append (fst r) mapped (snd r))))
                         elems h0)
                      (\<lambda>h'. Some (h', Ref mapped)))
           | ObjectC props \<Rightarrow>
               (case allocate h (ObjectC []) of
                  (h0, cloned) \<Rightarrow>
                    Option.bind
                      (fold_option
                         (\<lambda>key h'.
                            Option.bind (deepClone h' (get_prop props key))
                              (\<lambda>r. Some (assign_prop (fst r) cloned key (snd r))))
                         (Object_keys props) h0)
                      (\<lambda>h'. Some (h', Ref cloned)))))"
  by (subst deepClone.simps) simp

text \<open>
  C8 fails on an object with a property named \<open>__proto__\<close>, such as
  \<open>JSON.parse('{"__proto__": 1}')\<close>: \<open>deepFreeze\<close> returns it frozen, and the clone
  that \<open>deepClone\<close> makes of it has no property at all. The two are not structurally
  equal and their canonical strings differ.
\<close>

theorem deepClone_loses_proto_key:
  "deepFreeze proto_heap (Ref 0) = Some (proto_frozen, Ref 0)
   \<and> deepClone proto_frozen (Ref 0) = Some (proto_cloned, Ref 1)
   \<and> denotes proto_cloned (Ref 0) (Object [(proto_key, Prim (Number double_1))])
   \<and> denotes proto_cloned (Ref 1) (Object [])
   \<and> canonicalize_heap proto_cloned (Ref 0) = Some ([0x7B, 0x22] @ proto_key @ [0x22, 0x3A, 0x31, 0x7D])
   \<and> canonicalize_heap proto_cloned (Ref 1) = Some [0x7B, 0x7D]"
proof -
  have 1: "deepFreeze proto_heap (Ref 0) = Some (proto_frozen, Ref 0)"
    by (simp add: proto_heap_def proto_frozen_def deepFreeze_Ref deepFreeze_PrimV
        freeze_visit_def lookup_def Object_freeze_def Object_keys_def)
  have 2: "deepClone proto_frozen (Ref 0) = Some (proto_cloned, Ref 1)"
    by (simp add: proto_frozen_def proto_cloned_def deepClone_Ref deepClone_PrimV
        lookup_def allocate_def assign_prop_def Object_keys_def get_prop_def)
  have 3: "denotes proto_cloned (Ref 0) (Object [(proto_key, Prim (Number double_1))])"
    by (rule denotes.object
        [of _ _ "\<lparr>frozen = True, contents = ObjectC [(proto_key, PrimV (Number double_1))]\<rparr>"
           "[(proto_key, PrimV (Number double_1))]"])
       (simp_all add: proto_cloned_def lookup_def Object_keys_def get_prop_def denotes.prim)
  have 4: "denotes proto_cloned (Ref 1) (Object [])"
    by (rule denotes.object [of _ _ "\<lparr>frozen = False, contents = ObjectC []\<rparr>" "[]"])
       (simp_all add: proto_cloned_def lookup_def Object_keys_def)
  have 5: "canonicalize (Object [(proto_key, Prim (Number double_1))])
      = [0x7B, 0x22] @ proto_key @ [0x22, 0x3A, 0x31, 0x7D]"
    by (simp add: proto_key_def Array_sort_def Object_keys_def get_prop_def QuoteJSONString_def
        ascii_def Number_toString_1 Number_toString_2 is_high_surrogate_def
        is_low_surrogate_def)
  have 6: "canonicalize (Object []) = [0x7B, 0x7D]"
    by (simp add: Array_sort_def Object_keys_def ascii_def)
  from denotes_canonicalize_heap [OF 3] denotes_canonicalize_heap [OF 4] 1 2 3 4 5 6
  show ?thesis by simp
qed

section \<open>The canonical string determines the value\<close>

lemma unhex_hex_digit: "d < 16 \<Longrightarrow> unhex_digit (hex_digit d) = d"
proof -
  assume "d < 16"
  then have "d = 0 \<or> d = 1 \<or> d = 2 \<or> d = 3 \<or> d = 4 \<or> d = 5 \<or> d = 6 \<or> d = 7 \<or> d = 8
      \<or> d = 9 \<or> d = 10 \<or> d = 11 \<or> d = 12 \<or> d = 13 \<or> d = 14 \<or> d = 15"
    by presburger
  then show ?thesis
    by (elim disjE) (simp_all add: unhex_digit_def hex_digit_def)
qed

lemma nibbles_recompose:
  fixes n :: nat
  assumes "n < 65536"
  shows "4096 * (n div 4096 mod 16) + 256 * (n div 256 mod 16) + 16 * (n div 16 mod 16) + n mod 16 = n"
proof -
  have a: "n = 16 * (n div 16) + n mod 16"
    by simp
  have "n div 16 div 16 = n div 256"
    by (simp add: div_mult2_eq [symmetric])
  then have b: "n div 16 = 16 * (n div 256) + n div 16 mod 16"
    using div_mult_mod_eq [of "n div 16" 16] by simp
  have "n div 256 div 16 = n div 4096"
    by (simp add: div_mult2_eq [symmetric])
  then have c: "n div 256 = 16 * (n div 4096) + n div 256 mod 16"
    using div_mult_mod_eq [of "n div 256" 16] by simp
  from assms have "n div 4096 < 16"
    by (simp add: less_mult_imp_div_less)
  then have d: "n div 4096 mod 16 = n div 4096"
    by simp
  from a b c show ?thesis
    unfolding d by linarith
qed

lemma unquote_UnicodeEscape:
  "unquote_units (UnicodeEscape u @ r) = map_option (\<lambda>(s, rest). (u # s, rest)) (unquote_units r)"
proof -
  have "unat u < 65536"
    using unsigned_less [of u, where ?'a = nat] by simp
  then have "4096 * (unat u div 4096 mod 16) + 256 * (unat u div 256 mod 16) +
      16 * (unat u div 16 mod 16) + unat u mod 16 = unat u"
    by (rule nibbles_recompose)
  then have "(of_nat (4096 * (unat u div 4096 mod 16) + 256 * (unat u div 256 mod 16) +
      16 * (unat u div 16 mod 16) + unat u mod 16) :: code_unit) = of_nat (unat u)"
    by (simp only:)
  then have u: "(of_nat (4096 * (unat u div 4096 mod 16) + 256 * (unat u div 256 mod 16) +
      16 * (unat u div 16 mod 16) + unat u mod 16) :: code_unit) = u"
    by simp
  have "unquote_units (UnicodeEscape u @ r) =
      map_option
        (\<lambda>(s, rest).
           (of_nat (4096 * unhex_digit (hex_digit (unat u div 4096 mod 16)) +
                    256 * unhex_digit (hex_digit (unat u div 256 mod 16)) +
                    16 * unhex_digit (hex_digit (unat u div 16 mod 16)) +
                    unhex_digit (hex_digit (unat u mod 16))) # s, rest))
        (unquote_units r)"
    by (simp add: UnicodeEscape_def del: of_nat_add of_nat_mult)
  then show ?thesis
    by (simp only: unhex_hex_digit mod_less_divisor zero_less_numeral u)
qed

lemma high_surrogate_plain: "is_high_surrogate u \<Longrightarrow> u \<noteq> 0x22 \<and> u \<noteq> 0x5C"
  by (auto simp: is_high_surrogate_def)

lemma unquote_quote_units: "unquote_units (quote_units s @ 0x22 # r) = Some (s, r)"
proof (induction "length s" arbitrary: s rule: less_induct)
  case less
  show ?case
  proof (cases s)
    case Nil
    then show ?thesis by simp
  next
    case (Cons u us)
    have IH: "unquote_units (quote_units us @ 0x22 # r) = Some (us, r)"
      by (rule less.hyps) (simp add: Cons)
    show ?thesis
    proof (cases "u = 0x08 \<or> u = 0x09 \<or> u = 0x0A \<or> u = 0x0C \<or> u = 0x0D \<or> u = 0x22 \<or> u = 0x5C")
      case True
      then show ?thesis
        unfolding Cons by (elim disjE) (simp_all add: IH)
    next
      case special: False
      show ?thesis
      proof (cases "u < 0x20")
        case True
        with special show ?thesis
          unfolding Cons by (simp add: unquote_UnicodeEscape IH)
      next
        case ctl: False
        show ?thesis
        proof (cases "is_high_surrogate u")
          case True
          show ?thesis
          proof (cases us)
            case Nil
            with special ctl True show ?thesis
              unfolding Cons using unquote_UnicodeEscape [of u "0x22 # r"] by simp
          next
            case us: (Cons l rest)
            show ?thesis
            proof (cases "is_low_surrogate l")
              case low: True
              then have l: "l \<noteq> 0x22 \<and> l \<noteq> 0x5C"
                by (auto simp: is_low_surrogate_def)
              have "unquote_units (quote_units rest @ 0x22 # r) = Some (rest, r)"
                by (rule less.hyps) (simp add: Cons us)
              with special ctl True low l show ?thesis
                unfolding Cons us by simp
            next
              case False
              with special ctl True IH show ?thesis
                unfolding Cons us by (simp add: unquote_UnicodeEscape)
            qed
          qed
        next
          case high: False
          show ?thesis
          proof (cases "is_low_surrogate u")
            case True
            with special ctl high show ?thesis
              unfolding Cons by (simp add: unquote_UnicodeEscape IH)
          next
            case False
            with special ctl high show ?thesis
              unfolding Cons by (simp add: IH)
          qed
        qed
      qed
    qed
  qed
qed

lemma QuoteJSONString_inject:
  assumes "QuoteJSONString s1 @ r1 = QuoteJSONString s2 @ r2"
  shows "s1 = s2 \<and> r1 = r2"
proof -
  from assms have "quote_units s1 @ 0x22 # r1 = quote_units s2 @ 0x22 # r2"
    by (simp add: QuoteJSONString_def)
  then have "unquote_units (quote_units s1 @ 0x22 # r1) = unquote_units (quote_units s2 @ 0x22 # r2)"
    by simp
  then show ?thesis
    by (simp add: unquote_quote_units)
qed

text \<open>
  No rational rounds to two doubles: the bounds of the doubles follow one another, and a
  midpoint belongs to the one neighbour whose significand is even.
\<close>

lemma pow2_pos: "(0::rat) < 2 powi n"
  by (simp add: zero_less_power_int)

lemma pow2_split: "(2::rat) powi (a + int n) = 2 powi a * 2 ^ n"
  by (simp add: power_int_add)

lemma round_upper_eq: "round_upper m e = of_int (4 * int m + 2) * 2 powi (e - 2)"
proof -
  have "(2::rat) powi (e - 1) = 2 powi (e - 2 + int 1)"
    by simp
  also have "\<dots> = 2 powi (e - 2) * 2"
    by (simp only: pow2_split) simp
  finally show ?thesis
    by (simp add: round_upper_def algebra_simps)
qed

lemma round_lower_eq:
  "round_lower m e =
     of_int (if m = 2 ^ 52 \<and> - 1074 < e then 4 * int m - 1 else 4 * int m - 2) * 2 powi (e - 2)"
proof -
  have "(2::rat) powi (e - 1) = 2 powi (e - 2 + int 1)"
    by simp
  also have "\<dots> = 2 powi (e - 2) * 2"
    by (simp only: pow2_split) simp
  finally show ?thesis
    by (simp add: round_lower_def algebra_simps)
qed

lemma double_value_eq: "double_value m e = of_int (4 * int m) * 2 powi (e - 2)"
proof -
  have "(2::rat) powi e = 2 powi (e - 2 + int 2)"
    by simp
  also have "\<dots> = 2 powi (e - 2) * 4"
    by (simp only: pow2_split) simp
  finally show ?thesis
    by (simp add: double_value_def algebra_simps)
qed

lemma scaled_le:
  fixes a b :: int
  shows "of_int a * (2::rat) powi n \<le> of_int b * 2 powi n \<longleftrightarrow> a \<le> b"
    and "of_int a * (2::rat) powi n < of_int b * 2 powi n \<longleftrightarrow> a < b"
    and "of_int a * (2::rat) powi n = of_int b * 2 powi n \<longleftrightarrow> a = b"
proof -
  have p: "(0::rat) < 2 powi n" by (rule pow2_pos)
  then have q: "\<not> (2::rat) powi n < 0" "\<not> (2::rat) powi n \<le> 0" "(2::rat) powi n \<noteq> 0"
    by linarith+
  show "of_int a * (2::rat) powi n \<le> of_int b * 2 powi n \<longleftrightarrow> a \<le> b"
    using p q by (simp add: mult_le_cancel_right)
  show "of_int a * (2::rat) powi n < of_int b * 2 powi n \<longleftrightarrow> a < b"
    using p q by (simp add: mult_less_cancel_right)
  show "of_int a * (2::rat) powi n = of_int b * 2 powi n \<longleftrightarrow> a = b"
    using q by simp
qed

lemma round_order:
  assumes d1: "is_double m1 e1" and d2: "is_double m2 e2"
    and lt: "e1 < e2 \<or> (e1 = e2 \<and> m1 < m2)"
  shows "round_upper m1 e1 \<le> round_lower m2 e2"
    and "round_upper m1 e1 = round_lower m2 e2 \<Longrightarrow> odd m1 \<or> odd m2"
proof -
  define c where "c = (if m2 = 2 ^ 52 \<and> - 1074 < e2 then 4 * int m2 - 1 else 4 * int m2 - 2)"
  define n where "n = nat (e2 - e1)"
  from lt have n: "e2 - 2 = e1 - 2 + int n"
    by (auto simp: n_def)
  have low: "round_lower m2 e2 = of_int (c * 2 ^ n) * 2 powi (e1 - 2)"
    unfolding round_lower_eq n pow2_split c_def by (simp add: algebra_simps)
  have up: "round_upper m1 e1 = of_int (4 * int m1 + 2) * 2 powi (e1 - 2)"
    by (rule round_upper_eq)
  have ints: "4 * int m1 + 2 \<le> c * 2 ^ n \<and> (4 * int m1 + 2 = c * 2 ^ n \<longrightarrow> odd m1 \<or> odd m2)"
  proof (cases "e1 < e2")
    case True
    with d1 d2 have m2: "2 ^ 52 \<le> m2" and m1: "m1 < 2 ^ 53"
      by (auto simp: is_double_def)
    from True obtain n' where n': "n = Suc n'"
      by (cases n) (auto simp: n_def)
    from True d1 have e2: "- 1074 < e2"
      by (simp add: is_double_def)
    have c: "2 ^ 54 - 1 \<le> c"
    proof (cases "m2 = 2 ^ 52")
      case True
      with e2 show ?thesis by (simp add: c_def)
    next
      case False
      with m2 have "2 ^ 52 < m2" by simp
      then have "int (2 ^ 52) < int m2" by (simp only: of_nat_less_iff)
      then have "2 ^ 52 + 1 \<le> int m2" by simp
      with False e2 show ?thesis by (simp add: c_def)
    qed
    have "(1::int) \<le> 2 ^ n'" by simp
    with c have "(2 ^ 54 - 1) * 1 \<le> c * 2 ^ n'"
      by (intro mult_mono) simp_all
    then have big: "2 ^ 55 - 2 \<le> c * 2 ^ n"
      unfolding n' by simp
    from m1 have "int m1 < int (2 ^ 53)" by (simp only: of_nat_less_iff)
    then have small: "4 * int m1 + 2 \<le> 2 ^ 55 - 2"
      by simp
    have "odd m1" if "4 * int m1 + 2 = c * 2 ^ n"
    proof -
      from that big small have "4 * int m1 + 2 = 2 ^ 55 - 2" by linarith
      then have "int m1 = 2 ^ 53 - 1" by simp
      then have "odd (int m1)" by simp
      then show ?thesis by simp
    qed
    with big small show ?thesis by auto
  next
    case False
    with lt have e: "e1 = e2" and m: "m1 < m2" by auto
    from e have n0: "n = 0" by (simp add: n_def)
    from d1 d2 e m have "\<not> (m2 = 2 ^ 52 \<and> - 1074 < e2)"
      by (auto simp: is_double_def)
    then have c: "c = 4 * int m2 - 2" by (auto simp: c_def)
    from m have "int m1 + 1 \<le> int m2" by simp
    moreover have "odd m1 \<or> odd m2" if "4 * int m1 + 2 = 4 * int m2 - 2"
    proof -
      from that have "m2 = Suc m1" by simp
      then show ?thesis by simp
    qed
    ultimately show ?thesis
      unfolding c n0 by simp
  qed
  from ints show "round_upper m1 e1 \<le> round_lower m2 e2"
    unfolding low up scaled_le by simp
  assume "round_upper m1 e1 = round_lower m2 e2"
  with ints show "odd m1 \<or> odd m2"
    unfolding low up scaled_le by simp
qed

lemma round_lower_less_upper: "round_lower m e < round_upper m e"
  unfolding round_lower_eq round_upper_eq scaled_le by simp

lemma rounds_to_bounds:
  assumes "rounds_to v m e"
  shows "round_lower m e \<le> v" "v \<le> round_upper m e"
    "v = round_lower m e \<or> v = round_upper m e \<Longrightarrow> even m"
  using assms round_lower_less_upper [of m e] by (auto simp: rounds_to_def)

lemma rounds_to_ordered:
  assumes "is_double m1 e1" "is_double m2 e2" "e1 < e2 \<or> (e1 = e2 \<and> m1 < m2)"
    "rounds_to v m1 e1" "rounds_to v m2 e2"
  shows False
proof -
  note o = round_order [OF assms(1-3)]
  note b1 = rounds_to_bounds [OF assms(4)] and b2 = rounds_to_bounds [OF assms(5)]
  from o(1) b1(2) b2(1) have eq: "v = round_upper m1 e1" "v = round_lower m2 e2"
    by simp_all
  then have "round_upper m1 e1 = round_lower m2 e2" by simp
  from o(2) [OF this] b1(3) b2(3) eq show False by blast
qed

lemma rounds_to_unique:
  assumes "is_double m1 e1" "is_double m2 e2" "rounds_to v m1 e1" "rounds_to v m2 e2"
  shows "m1 = m2 \<and> e1 = e2"
proof (rule ccontr)
  assume "\<not> (m1 = m2 \<and> e1 = e2)"
  then have "(e1 < e2 \<or> (e1 = e2 \<and> m1 < m2)) \<or> (e2 < e1 \<or> (e2 = e1 \<and> m2 < m1))"
    by auto
  then show False
  proof
    assume "e1 < e2 \<or> (e1 = e2 \<and> m1 < m2)"
    from rounds_to_ordered [OF assms(1,2) this assms(3,4)] show False .
  next
    assume "e2 < e1 \<or> (e2 = e1 \<and> m2 < m1)"
    from rounds_to_ordered [OF assms(2,1) this assms(4,3)] show False .
  qed
qed

lemma rounds_to_positive:
  assumes "rounds_to v m e" "0 < m"
  shows "0 < v"
proof -
  have "(0::rat) = of_int 0 * 2 powi (e - 2)" by simp
  also have "\<dots> < round_lower m e"
    unfolding round_lower_eq scaled_le using assms(2) by simp
  also have "\<dots> \<le> v"
    using assms(1) by (rule rounds_to_bounds)
  finally show ?thesis .
qed

lemma rounds_to_itself: "0 < m \<Longrightarrow> rounds_to (double_value m e) m e"
  unfolding rounds_to_def round_lower_eq round_upper_eq double_value_eq scaled_le by simp

text \<open>The decimal that is chosen for a double rounds to it.\<close>

lemma nearest_rounds: "nearest m e p = Some s \<Longrightarrow> rounds_to (decimal s p) m e"
  by (auto simp: nearest_def Let_def split: if_splits)

lemma pow10_split: "(10::rat) powi e = 2 powi e * 5 powi e"
proof -
  have "(10::rat) = 2 * 5" by simp
  then show ?thesis
    by (simp only: power_int_mult_distrib)
qed

lemma exact_decimal_value:
  "exact_decimal m e = (s, p) \<Longrightarrow> decimal s p = double_value m e"
proof (cases "0 \<le> e")
  case True
  assume "exact_decimal m e = (s, p)"
  with True have s: "s = m * 2 ^ nat e" "p = 0"
    by (auto simp: exact_decimal_def)
  from True have "(2::rat) powi e = 2 ^ nat e"
    by (simp add: power_int_def)
  with s show ?thesis
    by (simp add: decimal_def double_value_def)
next
  case False
  assume "exact_decimal m e = (s, p)"
  with False have s: "s = m * 5 ^ nat (- e)" "p = e"
    by (auto simp: exact_decimal_def)
  from False have "(5::rat) powi e = inverse (5 ^ nat (- e))"
    by (simp add: power_int_def power_one_over inverse_eq_divide)
  then have "(5::rat) ^ nat (- e) * 5 powi e = 1"
    by simp
  then have "of_nat m * ((5::rat) ^ nat (- e) * 5 powi e) * 2 powi e = of_nat m * 2 powi e"
    by simp
  with s show ?thesis
    by (simp add: decimal_def double_value_def pow10_split mult_ac)
qed

lemma shortest_from_rounds:
  "0 < m \<Longrightarrow> shortest_from m e n k = (s, p) \<Longrightarrow> rounds_to (decimal s p) m e"
proof (induction m e n k rule: shortest_from.induct)
  case (1 m e n k)
  show ?case
  proof (cases "n - min e 0 < k")
    case True
    with 1(3) have "exact_decimal m e = (s, p)"
      by (simp add: shortest_from.simps)
    from exact_decimal_value [OF this] rounds_to_itself [OF 1(2), of e] show ?thesis
      by simp
  next
    case False
    show ?thesis
    proof (cases "nearest m e (n - k)")
      case None
      with False 1(3) have "shortest_from m e n (k + 1) = (s, p)"
        by (simp add: shortest_from.simps [of m e n k])
      with 1(1) [OF False None 1(2)] show ?thesis by simp
    next
      case (Some s')
      with False 1(3) have "s = s'" "p = n - k"
        by (simp_all add: shortest_from.simps [of m e n k])
      with Some show ?thesis
        by (simp add: nearest_rounds)
    qed
  qed
qed

lemma strip_zeros_value: "strip_zeros s p = (s', p') \<Longrightarrow> decimal s' p' = decimal s p"
proof (induction s p rule: strip_zeros.induct)
  case (1 s p)
  show ?case
  proof (cases "0 < s \<and> s mod 10 = 0")
    case True
    with 1(2) have "strip_zeros (s div 10) (p + 1) = (s', p')"
      by (simp add: strip_zeros.simps [of s p])
    from 1(1) [OF True this] have "decimal s' p' = decimal (s div 10) (p + 1)" .
    also have "\<dots> = of_nat (s div 10) * (10 * 10 powi p)"
      by (simp add: decimal_def power_int_add_1')
    also have "\<dots> = of_nat (s div 10 * 10) * 10 powi p"
      by simp
    also from True have "s div 10 * 10 = s"
      by auto
    finally show ?thesis
      by (simp add: decimal_def)
  next
    case False
    with 1(2) show ?thesis
      by (simp add: strip_zeros.simps [of s p])
  qed
qed

lemma shortest_decimal_rounds:
  assumes "0 < m" "shortest_decimal m e = (s, p)"
  shows "rounds_to (decimal s p) m e"
proof -
  obtain s0 p0 where a: "shortest_from m e (decimal_exponent (double_value m e)) 1 = (s0, p0)"
    by (cases "shortest_from m e (decimal_exponent (double_value m e)) 1")
  with assms(2) have "strip_zeros s0 p0 = (s, p)"
    by (simp add: shortest_decimal_def)
  from strip_zeros_value [OF this] shortest_from_rounds [OF assms(1) a] show ?thesis
    by simp
qed

text \<open>Reading the text of a number gives back the decimal it was written from.\<close>

lemma digit_unit_props: "d < 10 \<Longrightarrow> is_digit (digit_unit d) \<and> unat (digit_unit d) - 0x30 = d"
proof -
  assume "d < 10"
  then have "d = 0 \<or> d = 1 \<or> d = 2 \<or> d = 3 \<or> d = 4 \<or> d = 5 \<or> d = 6 \<or> d = 7 \<or> d = 8 \<or> d = 9"
    by presburger
  then show ?thesis
    by (elim disjE) (simp_all add: is_digit_def digit_unit_def)
qed

lemma decimal_digits_all: "list_all is_digit (decimal_digits n)"
proof (induction n rule: decimal_digits.induct)
  case (1 n)
  show ?case
  proof (cases "n < 10")
    case True
    then show ?thesis
      by (subst decimal_digits.simps) (simp add: digit_unit_props)
  next
    case False
    with 1 show ?thesis
      by (subst decimal_digits.simps) (simp add: digit_unit_props)
  qed
qed

lemma decimal_digits_nonempty: "decimal_digits n \<noteq> []"
  by (subst decimal_digits.simps) simp

lemma digits_value_decimal_digits: "digits_value (decimal_digits n) = n"
proof (induction n rule: decimal_digits.induct)
  case (1 n)
  show ?case
  proof (cases "n < 10")
    case True
    then show ?thesis
      by (subst decimal_digits.simps) (simp add: digits_value_def digit_unit_props)
  next
    case False
    with 1 have "digits_value (decimal_digits (n div 10)) = n div 10"
      by simp
    with False show ?thesis
      by (subst decimal_digits.simps) (simp add: digits_value_def digit_unit_props)
  qed
qed

lemma decimal_digits_hd: "is_digit (hd (decimal_digits n))"
  using decimal_digits_all [of n] decimal_digits_nonempty [of n]
  by (cases "decimal_digits n") simp_all

lemma foldl_digits:
  fixes f :: "nat \<Rightarrow> code_unit \<Rightarrow> nat"
  assumes f: "\<And>a d. f a d = 10 * a + g d"
  shows "foldl f a ds = a * 10 ^ length ds + foldl f 0 ds"
proof (induction ds arbitrary: a)
  case Nil
  show ?case by simp
next
  case (Cons d ds)
  have 1: "foldl f a (d # ds) = f a d * 10 ^ length ds + foldl f 0 ds"
    using Cons [of "f a d"] by simp
  have 2: "foldl f 0 (d # ds) = f 0 d * 10 ^ length ds + foldl f 0 ds"
    using Cons [of "f 0 d"] by simp
  have 3: "f a d = 10 * a + g d" "f 0 d = g d"
    by (simp_all add: f)
  show ?case
    unfolding 1 2 3 by (simp add: algebra_simps)
qed

lemma digits_value_append:
  "digits_value (a @ b) = digits_value a * 10 ^ length b + digits_value b"
  unfolding digits_value_def foldl_append
  by (rule foldl_digits [where g = "\<lambda>d. unat d - 0x30"]) simp

lemma digits_value_zeros: "digits_value (replicate n 0x30) = 0"
proof (induction n)
  case 0
  show ?case by (simp add: digits_value_def)
next
  case (Suc n)
  have "replicate (Suc n) (0x30 :: code_unit) = replicate n 0x30 @ [0x30]"
    by (simp add: replicate_append_same)
  then show ?case
    using Suc by (simp only: digits_value_append) (simp add: digits_value_def)
qed

lemma zeros_all: "list_all is_digit (replicate n 0x30)"
  by (simp add: list_all_iff is_digit_def)

lemma takeWhile_digits:
  "list_all is_digit ds \<Longrightarrow> (r = [] \<or> \<not> is_digit (hd r)) \<Longrightarrow> takeWhile is_digit (ds @ r) = ds"
  by (cases r) (auto simp: list_all_iff takeWhile_append2 intro: takeWhile_eq_all_conv [THEN iffD2])

lemma dropWhile_digits:
  "list_all is_digit ds \<Longrightarrow> (r = [] \<or> \<not> is_digit (hd r)) \<Longrightarrow> dropWhile is_digit (ds @ r) = r"
  by (cases r) (auto simp: list_all_iff dropWhile_append2)


lemma decimal_value_whole:
  assumes "list_all is_digit w" "r = [] \<or> (\<not> is_digit (hd r) \<and> hd r \<noteq> 0x2E)"
  shows "decimal_value (w @ r) = decimal (digits_value w) (exponent_value r)"
proof -
  from assms(2) have c: "r = [] \<or> \<not> is_digit (hd r)"
    by blast
  note takeWhile_digits [OF assms(1) c] dropWhile_digits [OF assms(1) c]
  with assms(2) show ?thesis
    by (auto simp: decimal_value_def)
qed

lemma decimal_value_point:
  assumes "list_all is_digit w" "list_all is_digit f" "r = [] \<or> \<not> is_digit (hd r)"
  shows "decimal_value (w @ 0x2E # f @ r) =
      decimal (digits_value (w @ f)) (exponent_value r - int (length f))"
proof -
  have "\<not> is_digit 0x2E"
    by (simp add: is_digit_def)
  then have c: "0x2E # f @ r = [] \<or> \<not> is_digit (hd (0x2E # f @ r))"
    by simp
  note takeWhile_digits [OF assms(1) c] dropWhile_digits [OF assms(1) c]
    takeWhile_digits [OF assms(2,3)] dropWhile_digits [OF assms(2,3)]
  then show ?thesis
    by (simp add: decimal_value_def)
qed

lemma exponent_part_value: "exponent_value (exponent_part n) = n - 1"
  by (simp add: exponent_value_def exponent_part_def ascii_def digits_value_decimal_digits)

lemma exponent_part_hd:
  "exponent_part n \<noteq> [] \<and> \<not> is_digit (hd (exponent_part n)) \<and> hd (exponent_part n) \<noteq> 0x2E"
  by (simp add: exponent_part_def ascii_def is_digit_def)

lemma decimal_shift: "decimal (s * 10 ^ j) p = decimal s (p + int j)"
  by (simp add: decimal_def power_int_add)

lemma number_format_value:
  assumes ds: "list_all is_digit ds" "ds \<noteq> []"
  shows "decimal_value (number_format ds n) = decimal (digits_value ds) (n - int (length ds))"
proof -
  let ?k = "int (length ds)"
  consider (whole) "?k \<le> n" "n \<le> 21"
    | (point) "\<not> (?k \<le> n \<and> n \<le> 21)" "0 < n" "n \<le> 21"
    | (small) "\<not> (?k \<le> n \<and> n \<le> 21)" "\<not> (0 < n \<and> n \<le> 21)" "- 6 < n" "n \<le> 0"
    | (exp1) "\<not> (?k \<le> n \<and> n \<le> 21)" "\<not> (0 < n \<and> n \<le> 21)" "\<not> (- 6 < n \<and> n \<le> 0)" "?k = 1"
    | (exp) "\<not> (?k \<le> n \<and> n \<le> 21)" "\<not> (0 < n \<and> n \<le> 21)" "\<not> (- 6 < n \<and> n \<le> 0)" "?k \<noteq> 1"
    by blast
  then show ?thesis
  proof cases
    case whole
    then have f: "number_format ds n = (ds @ replicate (nat (n - ?k)) 0x30) @ []"
      by (simp add: number_format_def)
    from ds(1) have "list_all is_digit (ds @ replicate (nat (n - ?k)) 0x30)"
      by (simp add: zeros_all)
    from decimal_value_whole [OF this, of "[]"]
    have "decimal_value (number_format ds n) =
        decimal (digits_value (ds @ replicate (nat (n - ?k)) 0x30)) 0"
      unfolding f by (simp add: exponent_value_def)
    also have "\<dots> = decimal (digits_value ds * 10 ^ nat (n - ?k)) 0"
      by (simp add: digits_value_append digits_value_zeros)
    also have "\<dots> = decimal (digits_value ds) (0 + int (nat (n - ?k)))"
      by (rule decimal_shift)
    also from whole have "0 + int (nat (n - ?k)) = n - ?k"
      by simp
    finally show ?thesis .
  next
    case point
    then have lt: "n < ?k" by auto
    from point have f: "number_format ds n = take (nat n) ds @ 0x2E # drop (nat n) ds @ []"
      by (auto simp: number_format_def ascii_def)
    have "list_all is_digit (take (nat n) ds)" "list_all is_digit (drop (nat n) ds)"
      using ds(1) by (auto simp: list_all_iff dest: in_set_takeD in_set_dropD)
    from decimal_value_point [OF this, of "[]"]
    have "decimal_value (number_format ds n) =
        decimal (digits_value ds) (0 - int (length (drop (nat n) ds)))"
      unfolding f by (simp add: exponent_value_def)
    also from point(2) lt have "0 - int (length (drop (nat n) ds)) = n - ?k"
      by simp
    finally show ?thesis .
  next
    case small
    then have f: "number_format ds n = [0x30] @ 0x2E # (replicate (nat (- n)) 0x30 @ ds) @ []"
      by (auto simp: number_format_def ascii_def)
    have "list_all is_digit [0x30]" "list_all is_digit (replicate (nat (- n)) 0x30 @ ds)"
      using ds(1) by (simp_all add: zeros_all is_digit_def)
    from decimal_value_point [OF this, of "[]"]
    have "decimal_value (number_format ds n) =
        decimal (digits_value ([0x30] @ replicate (nat (- n)) 0x30 @ ds))
          (0 - int (length (replicate (nat (- n)) (0x30 :: code_unit) @ ds)))"
      unfolding f by (simp add: exponent_value_def)
    also have "digits_value ([0x30] @ replicate (nat (- n)) 0x30 @ ds) = digits_value ds"
    proof -
      have "[0x30] @ replicate (nat (- n)) 0x30 @ ds = replicate (Suc (nat (- n))) 0x30 @ ds"
        by simp
      then show ?thesis
        by (simp only: digits_value_append digits_value_zeros)
    qed
    also from small have "0 - int (length (replicate (nat (- n)) (0x30 :: code_unit) @ ds)) = n - ?k"
      by simp
    finally show ?thesis .
  next
    case exp1
    then have f: "number_format ds n = ds @ exponent_part n"
      by (auto simp: number_format_def)
    from decimal_value_whole [OF ds(1), of "exponent_part n"] exponent_part_hd [of n]
    have "decimal_value (number_format ds n) = decimal (digits_value ds) (n - 1)"
      unfolding f by (simp add: exponent_part_value)
    with exp1 show ?thesis by simp
  next
    case exp
    then have f: "number_format ds n = take 1 ds @ 0x2E # drop 1 ds @ exponent_part n"
      by (auto simp: number_format_def ascii_def)
    have "list_all is_digit (take 1 ds)" "list_all is_digit (drop 1 ds)"
      using ds(1) by (auto simp: list_all_iff dest: in_set_takeD in_set_dropD)
    from decimal_value_point [OF this, of "exponent_part n"] exponent_part_hd [of n]
    have "decimal_value (number_format ds n) =
        decimal (digits_value ds) (n - 1 - int (length (drop 1 ds)))"
      unfolding f by (simp add: exponent_part_value)
    also from ds(2) have "n - 1 - int (length (drop 1 ds)) = n - ?k"
      by (cases ds) simp_all
    finally show ?thesis .
  qed
qed

text \<open>
  So the text of a number, up to the delimiter that follows it, determines the double,
  but for the sign of zero.
\<close>

lemma digits_number_units: "list_all is_digit ds \<Longrightarrow> list_all number_unit ds"
  by (simp add: list_all_iff number_unit_def)

lemma exponent_part_units: "list_all number_unit (exponent_part n)"
  using digits_number_units [OF decimal_digits_all]
  by (simp add: exponent_part_def ascii_def number_unit_def)

lemma number_format_units:
  assumes "list_all is_digit ds"
  shows "list_all number_unit (number_format ds n)"
proof -
  from assms have "list_all number_unit ds"
    by (rule digits_number_units)
  then have "list_all number_unit (take j ds)" "list_all number_unit (drop j ds)" for j
    by (auto simp: list_all_iff dest: in_set_takeD in_set_dropD)
  moreover have "list_all number_unit (replicate j 0x30)" for j
    by (simp add: list_all_iff number_unit_def is_digit_def)
  moreover note \<open>list_all number_unit ds\<close> exponent_part_units [of n]
  ultimately show ?thesis
    by (simp add: number_format_def Let_def ascii_def number_unit_def is_digit_def)
qed

lemma Number_toString_units: "list_all number_unit (Number_toString negative m e)"
proof (cases "shortest_decimal m e")
  case (Pair s p)
  with number_format_units [OF decimal_digits_all] show ?thesis
    by (simp add: Number_toString_def ascii_def number_unit_def is_digit_def)
qed

lemma delimited_number_unit: "delimited r \<Longrightarrow> takeWhile number_unit r = []"
  by (cases r) (auto simp: delimited_def number_unit_def is_digit_def)

lemma number_units_prefix_inject:
  assumes "list_all number_unit a" "list_all number_unit b" "a @ r1 = b @ r2"
    "delimited r1" "delimited r2"
  shows "a = b \<and> r1 = r2"
proof -
  have "takeWhile number_unit (a @ r1) = a" "takeWhile number_unit (b @ r2) = b"
    using assms(1,2,4,5) by (simp_all add: takeWhile_append2 list_all_iff delimited_number_unit)
  with assms(3) have "a = b" by simp
  with assms(3) show ?thesis by simp
qed

lemma number_format_hd:
  assumes "list_all is_digit ds" "ds \<noteq> []"
  shows "number_format ds n \<noteq> [] \<and> is_digit (hd (number_format ds n))"
proof -
  from assms obtain d ds' where ds: "ds = d # ds'" "is_digit d"
    by (cases ds) auto
  have z: "is_digit 0x30" by (simp add: is_digit_def)
  have "0 < n \<Longrightarrow> take (nat n) ds = d # take (nat n - 1) ds'"
    unfolding ds by (cases "nat n") simp_all
  with ds z show ?thesis
    by (auto simp: number_format_def Let_def ascii_def)
qed

lemma positive_text_value:
  assumes "0 < m" "shortest_decimal m e = (s, p)"
  shows "rounds_to (decimal_value (number_format (decimal_digits s) (p + int (length (decimal_digits s))))) m e"
proof -
  from number_format_value [OF decimal_digits_all decimal_digits_nonempty,
      of s "p + int (length (decimal_digits s))"]
  have "decimal_value (number_format (decimal_digits s) (p + int (length (decimal_digits s))))
      = decimal s p"
    by (simp add: digits_value_decimal_digits)
  with shortest_decimal_rounds [OF assms] show ?thesis
    by simp
qed

lemma Number_toString_zero: "Number_toString negative 0 e = [0x30]"
  by (simp add: Number_toString_def ascii_def)

lemma decimal_value_zero: "decimal_value [0x30] = 0"
  using decimal_value_whole [of "[0x30]" "[]"]
  by (simp add: is_digit_def digits_value_def decimal_def)

lemma Number_toString_cases:
  assumes "0 < m"
  obtains t where "Number_toString negative m e = (if negative then 0x2D # t else t)"
    "t \<noteq> []" "is_digit (hd t)" "rounds_to (decimal_value t) m e"
proof (cases "shortest_decimal m e")
  case (Pair s p)
  let ?t = "number_format (decimal_digits s) (p + int (length (decimal_digits s)))"
  show ?thesis
  proof
    from assms Pair show "Number_toString negative m e = (if negative then 0x2D # ?t else ?t)"
      by (simp add: Number_toString_def ascii_def)
    from number_format_hd [OF decimal_digits_all decimal_digits_nonempty]
    show "?t \<noteq> []" "is_digit (hd ?t)"
      by simp_all
    from positive_text_value [OF assms Pair] show "rounds_to (decimal_value ?t) m e" .
  qed
qed

lemma Number_toString_equal:
  assumes eq: "Number_toString s1 m1 e1 = Number_toString s2 m2 e2"
    and d: "is_double m1 e1" "is_double m2 e2"
  shows "number_value (Finite s1 m1 e1) = number_value (Finite s2 m2 e2)"
proof -
  have minus: "\<not> is_digit 0x2D"
    by (simp add: is_digit_def)
  have zero: False
    if "0 < m" "Number_toString negative m e = [0x30]" for negative m e
  proof -
    from that(1) obtain t where t: "Number_toString negative m e = (if negative then 0x2D # t else t)"
      "rounds_to (decimal_value t) m e"
      by (rule Number_toString_cases)
    from t(1) that(2) have "t = [0x30]"
      by (auto split: if_splits)
    with t(2) have "rounds_to 0 m e"
      by (simp add: decimal_value_zero)
    from rounds_to_positive [OF this that(1)] show False by simp
  qed
  show ?thesis
  proof (cases "m1 = 0")
    case m1: True
    show ?thesis
    proof (cases "m2 = 0")
      case True
      with m1 d show ?thesis
        by (simp add: is_double_def)
    next
      case False
      with zero [of m2 s2 e2] eq m1 show ?thesis
        by (simp add: Number_toString_zero)
    qed
  next
    case m1: False
    show ?thesis
    proof (cases "m2 = 0")
      case True
      with zero [of m1 s1 e1] eq m1 show ?thesis
        by (simp add: Number_toString_zero)
    next
      case m2: False
      from m1 obtain t1 where t1: "Number_toString s1 m1 e1 = (if s1 then 0x2D # t1 else t1)"
        "t1 \<noteq> []" "is_digit (hd t1)" "rounds_to (decimal_value t1) m1 e1"
        by (auto intro: Number_toString_cases [of m1 s1 e1])
      from m2 obtain t2 where t2: "Number_toString s2 m2 e2 = (if s2 then 0x2D # t2 else t2)"
        "t2 \<noteq> []" "is_digit (hd t2)" "rounds_to (decimal_value t2) m2 e2"
        by (auto intro: Number_toString_cases [of m2 s2 e2])
      from eq t1(1) t2(1) have "(if s1 then 0x2D # t1 else t1) = (if s2 then 0x2D # t2 else t2)"
        by simp
      with t1(2,3) t2(2,3) minus have s: "s1 = s2" and t: "t1 = t2"
        by (cases t1; cases t2; auto split: if_splits)+
      from t t1(4) t2(4) rounds_to_unique [OF d, of "decimal_value t1"] have "m1 = m2 \<and> e1 = e2"
        by simp
      with s show ?thesis by simp
    qed
  qed
qed

lemma Number_toString_inject:
  assumes "Number_toString s1 m1 e1 @ r1 = Number_toString s2 m2 e2 @ r2"
    "delimited r1" "delimited r2" "is_double m1 e1" "is_double m2 e2"
  shows "number_value (Finite s1 m1 e1) = number_value (Finite s2 m2 e2) \<and> r1 = r2"
proof -
  from number_units_prefix_inject [OF Number_toString_units Number_toString_units assms(1-3)]
  have "Number_toString s1 m1 e1 = Number_toString s2 m2 e2" "r1 = r2"
    by simp_all
  with Number_toString_equal [OF _ assms(4,5)] show ?thesis
    by simp
qed

lemma Number_toString_hd:
  "Number_toString negative m e \<noteq> [] \<and>
   (hd (Number_toString negative m e) = 0x2D \<or> is_digit (hd (Number_toString negative m e)))"
proof (cases "m = 0")
  case True
  then show ?thesis
    by (simp add: Number_toString_zero is_digit_def)
next
  case False
  then obtain t where "Number_toString negative m e = (if negative then 0x2D # t else t)"
    "t \<noteq> []" "is_digit (hd t)"
    by (auto intro: Number_toString_cases [of m negative e])
  then show ?thesis by simp
qed

lemma same_primitive_JSON_stringify:
  "same_primitive p q \<Longrightarrow> JSON_stringify p = JSON_stringify q"
proof (induction p q rule: same_primitive.induct)
  case (1 x y)
  then show ?case
    by (cases x; cases y) (auto simp: Number_toString_zero split: if_splits)
qed simp_all

lemma sem_equal_canonicalize: "sem_equal v1 v2 \<Longrightarrow> canonicalize v1 = canonicalize v2"
proof (induction rule: sem_equal.induct)
  case (prim p q)
  then show ?case by (simp add: same_primitive_JSON_stringify)
next
  case (array xs ys)
  then have "map canonicalize xs = map canonicalize ys"
    by (induction rule: list_all2_induct) auto
  then show ?case by simp
next
  case (object ps qs)
  have keys: "Array_sort (Object_keys ps) = Array_sort (Object_keys qs)"
    unfolding Array_sort_def using object.hyps(1-3) by (rule sort_distinct_same_set)
  have m: "map (\<lambda>key. QuoteJSONString key @ ascii '':'' @ canonicalize (get_prop ps key))
          (Array_sort (Object_keys ps))
      = map (\<lambda>key. QuoteJSONString key @ ascii '':'' @ canonicalize (get_prop qs key))
          (Array_sort (Object_keys qs))"
    unfolding keys [symmetric] using object.IH
    by (intro map_cong refl) (simp add: Array_sort_def)
  show ?case
    by (simp add: m)
qed

lemma join_text:
  "join [0x2C] (map e (x # xs)) = e x @ concat (map (\<lambda>y. 0x2C # e y) xs)"
  by (induction xs arbitrary: x) auto

lemma canonicalize_Array_text:
  "canonicalize (Array items) = 0x5B # join [0x2C] (map canonicalize items) @ [0x5D]"
  by (simp add: ascii_def)

lemma canonicalize_Object_text:
  "canonicalize (Object props) =
     0x7B # join [0x2C] (map (entry_text props) (Array_sort (Object_keys props))) @ [0x7D]"
  by (simp add: ascii_def entry_text_def [abs_def])

lemma JSON_stringify_start:
  assumes "finite_numbers (Prim p)"
  shows "\<exists>c rest. JSON_stringify p = c # rest \<and> prim_start c"
proof (cases p)
  case Null
  then show ?thesis by (simp add: ascii_def prim_start_def)
next
  case (Boolean b)
  then show ?thesis by (simp add: ascii_def prim_start_def)
next
  case (Number x)
  have "\<exists>c rest. Number_toString negative m e = c # rest \<and> prim_start c" for negative m e
    using Number_toString_hd [of negative m e]
    by (cases "Number_toString negative m e") (auto simp: prim_start_def)
  with Number assms show ?thesis
    by (cases x) simp_all
next
  case (String s)
  then show ?thesis by (simp add: QuoteJSONString_def prim_start_def)
qed

lemma canonicalize_start:
  assumes "finite_numbers v"
  shows "\<exists>c rest. canonicalize v = c # rest \<and> value_start c"
proof (cases v)
  case (Prim p)
  with assms JSON_stringify_start [of p] show ?thesis
    by (auto simp: value_start_def)
next
  case (Array items)
  show ?thesis
    unfolding Array canonicalize_Array_text by (simp add: value_start_def)
next
  case (Object props)
  show ?thesis
    unfolding Object canonicalize_Object_text by (simp add: value_start_def)
qed

lemma delimited_close: "cl = 0x5D \<or> cl = 0x7D \<Longrightarrow> delimited (cl # r)"
  by (auto simp: delimited_def)

lemma delimited_comma: "delimited (0x2C # r)"
  by (simp add: delimited_def)

lemma join_Cons_text:
  "join [0x2C] (a # map e xs) = a @ concat (map (\<lambda>y. 0x2C # e y) xs)"
  by (induction xs arbitrary: a) auto

lemma seq_inject:
  fixes e1 :: "'a \<Rightarrow> jsstring" and e2 :: "'b \<Rightarrow> jsstring"
  assumes eq: "join [0x2C] (map e1 xs) @ cl # r1 = join [0x2C] (map e2 ys) @ cl # r2"
    and cl: "cl = 0x5D \<or> cl = 0x7D"
    and elem: "\<And>x y t1 t2. x \<in> set xs \<Longrightarrow> y \<in> set ys \<Longrightarrow> e1 x @ t1 = e2 y @ t2 \<Longrightarrow>
        delimited t1 \<Longrightarrow> delimited t2 \<Longrightarrow> R x y \<and> t1 = t2"
    and start1: "\<And>x. x \<in> set xs \<Longrightarrow> \<exists>c rest. e1 x = c # rest \<and> c \<noteq> cl"
    and start2: "\<And>y. y \<in> set ys \<Longrightarrow> \<exists>c rest. e2 y = c # rest \<and> c \<noteq> cl"
  shows "list_all2 R xs ys \<and> r1 = r2"
  using eq elem start1 start2
proof (induction xs arbitrary: ys)
  case Nil
  show ?case
  proof (cases ys)
    case Nil
    with Nil.prems(1) show ?thesis by simp
  next
    case (Cons y ys')
    from Nil.prems(4) [of y] Cons obtain c rest where "e2 y = c # rest" "c \<noteq> cl"
      by auto
    with Nil.prems(1) Cons show ?thesis
      by (simp add: join_Cons_text)
  qed
next
  case (Cons x xs')
  show ?case
  proof (cases ys)
    case Nil
    from Cons.prems(3) [of x] obtain c rest where "e1 x = c # rest" "c \<noteq> cl"
      by auto
    with Cons.prems(1) Nil show ?thesis
      by (simp add: join_Cons_text)
  next
    case ys: (Cons y ys')
    let ?t1 = "concat (map (\<lambda>x. 0x2C # e1 x) xs') @ cl # r1"
    let ?t2 = "concat (map (\<lambda>y. 0x2C # e2 y) ys') @ cl # r2"
    from Cons.prems(1) ys have eq': "e1 x @ ?t1 = e2 y @ ?t2"
      by (simp add: join_Cons_text)
    have d1: "delimited ?t1"
      using cl by (cases xs') (simp_all add: delimited_close delimited_comma)
    have d2: "delimited ?t2"
      using cl by (cases ys') (simp_all add: delimited_close delimited_comma)
    from Cons.prems(2) [OF _ _ eq' d1 d2] ys have xy: "R x y" and t: "?t1 = ?t2"
      by simp_all
    have "list_all2 R xs' ys' \<and> r1 = r2"
    proof (cases xs')
      case Nil
      show ?thesis
      proof (cases ys')
        case Nil
        with \<open>xs' = []\<close> t show ?thesis by simp
      next
        case (Cons y' ys'')
        with \<open>xs' = []\<close> t cl show ?thesis by auto
      qed
    next
      case xs': (Cons x' xs'')
      show ?thesis
      proof (cases ys')
        case Nil
        with xs' t cl show ?thesis by auto
      next
        case ys': (Cons y' ys'')
        from t xs' ys' have "join [0x2C] (map e1 xs') @ cl # r1 = join [0x2C] (map e2 ys') @ cl # r2"
          by (simp add: join_Cons_text)
        then show ?thesis
        proof (rule Cons.IH)
          fix a b t1 t2
          assume "a \<in> set xs'" "b \<in> set ys'" "e1 a @ t1 = e2 b @ t2" "delimited t1" "delimited t2"
          with ys show "R a b \<and> t1 = t2"
            by (intro Cons.prems(2)) simp_all
        next
          fix a assume "a \<in> set xs'"
          then show "\<exists>c rest. e1 a = c # rest \<and> c \<noteq> cl"
            by (intro Cons.prems(3)) simp
        next
          fix b assume "b \<in> set ys'"
          with ys show "\<exists>c rest. e2 b = c # rest \<and> c \<noteq> cl"
            by (intro Cons.prems(4)) simp
        qed
      qed
    qed
    with xy ys show ?thesis by simp
  qed
qed

lemma supported_Number:
  assumes "supported (Prim (Number x))"
  obtains negative m e where "x = Finite negative m e" "is_double m e"
  using assms by (cases x) (simp_all add: supported_def)

lemma Number_toString_not_literal:
  assumes "Number_toString negative m e @ t = c # t'"
  shows "c \<noteq> 0x6E \<and> c \<noteq> 0x74 \<and> c \<noteq> 0x66 \<and> c \<noteq> 0x22"
proof -
  from Number_toString_hd [of negative m e] assms have "c = 0x2D \<or> is_digit c"
    by (cases "Number_toString negative m e") auto
  then show ?thesis
    by (auto simp: is_digit_def)
qed

lemma literal_text:
  "JSON_stringify Null = [0x6E, 0x75, 0x6C, 0x6C]"
  "JSON_stringify (Boolean True) = [0x74, 0x72, 0x75, 0x65]"
  "JSON_stringify (Boolean False) = [0x66, 0x61, 0x6C, 0x73, 0x65]"
  "JSON_stringify (String s) = 0x22 # quote_units s @ [0x22]"
  by (simp_all add: ascii_def QuoteJSONString_def)

lemma JSON_stringify_inject:
  assumes eq: "JSON_stringify p @ r1 = JSON_stringify q @ r2"
    and fin: "supported (Prim p)" "supported (Prim q)"
    and del: "delimited r1" "delimited r2"
  shows "same_primitive p q \<and> r1 = r2"
proof -
  have left: False
    if "p = Number x" "JSON_stringify q = c # t" "c = 0x6E \<or> c = 0x74 \<or> c = 0x66 \<or> c = 0x22"
    for x c t
  proof -
    from fin(1) that(1) obtain negative m e where "x = Finite negative m e"
      by (auto elim: supported_Number)
    with that(1) eq that(2) have "Number_toString negative m e @ r1 = c # t @ r2"
      by simp
    from Number_toString_not_literal [OF this] that(3) show False by simp
  qed
  have right: False
    if "q = Number y" "JSON_stringify p = c # t" "c = 0x6E \<or> c = 0x74 \<or> c = 0x66 \<or> c = 0x22"
    for y c t
  proof -
    from fin(2) that(1) obtain negative m e where "y = Finite negative m e"
      by (auto elim: supported_Number)
    with that(1) eq that(2) have "Number_toString negative m e @ r2 = c # t @ r1"
      by simp
    from Number_toString_not_literal [OF this] that(3) show False by simp
  qed
  show ?thesis
  proof (cases p)
    case Null
    show ?thesis
    proof (cases q)
      case (Number y)
      from right [OF this, of "0x6E"] Null show ?thesis
        by (simp add: literal_text ascii_def QuoteJSONString_def)
    qed (use eq Null in \<open>simp_all add: literal_text ascii_def QuoteJSONString_def split: if_splits\<close>)
  next
    case (Boolean b)
    show ?thesis
    proof (cases q)
      case (Number y)
      from right [OF this, of "0x74"] right [OF this, of "0x66"] Boolean show ?thesis
        by (cases b) (simp_all add: literal_text ascii_def QuoteJSONString_def)
    qed (use eq Boolean in \<open>auto simp: literal_text ascii_def QuoteJSONString_def split: if_splits\<close>)
  next
    case p: (Number x)
    show ?thesis
    proof (cases q)
      case Null
      from left [OF p, of "0x6E"] Null show ?thesis
        by (simp add: literal_text ascii_def QuoteJSONString_def)
    next
      case (Boolean b)
      from left [OF p, of "0x74"] left [OF p, of "0x66"] Boolean show ?thesis
        by (cases b) (simp_all add: literal_text ascii_def QuoteJSONString_def)
    next
      case (Number y)
      from fin(1) p obtain s1 m1 e1 where x: "x = Finite s1 m1 e1" "is_double m1 e1"
        by (auto elim: supported_Number)
      from fin(2) Number obtain s2 m2 e2 where y: "y = Finite s2 m2 e2" "is_double m2 e2"
        by (auto elim: supported_Number)
      from eq p Number x(1) y(1)
      have "Number_toString s1 m1 e1 @ r1 = Number_toString s2 m2 e2 @ r2"
        by simp
      from Number_toString_inject [OF this del x(2) y(2)] p Number x(1) y(1) show ?thesis
        by simp
    next
      case (String s)
      from left [OF p, of "0x22"] String show ?thesis
        by (simp add: literal_text ascii_def QuoteJSONString_def)
    qed
  next
    case p: (String s)
    show ?thesis
    proof (cases q)
      case (String s')
      with eq p QuoteJSONString_inject [of s r1 s' r2] show ?thesis
        by simp
    next
      case (Number y)
      from right [OF this, of "0x22"] p show ?thesis
        by (simp add: literal_text ascii_def QuoteJSONString_def)
    qed (use eq p in \<open>auto simp: literal_text ascii_def QuoteJSONString_def split: if_splits\<close>)
  qed
qed

lemma get_prop_in_set: "k \<in> set (Object_keys props) \<Longrightarrow> (k, get_prop props k) \<in> set props"
proof -
  assume "k \<in> set (Object_keys props)"
  then obtain v where "map_of props k = Some v"
    by (auto simp: Object_keys_def dest: weak_map_of_SomeI)
  then show ?thesis
    by (auto simp: get_prop_def dest: map_of_SomeD)
qed

lemma supported_Array: "supported (Array xs) \<Longrightarrow> x \<in> set xs \<Longrightarrow> supported x"
  by (simp add: supported_def list_all_iff)

lemma supported_Object:
  assumes "supported (Object ps)"
  shows "distinct (Object_keys ps)"
    and "k \<in> set (Object_keys ps) \<Longrightarrow> supported (get_prop ps k)"
proof -
  from assms show "distinct (Object_keys ps)"
    by (simp add: supported_def)
  assume "k \<in> set (Object_keys ps)"
  then have "(k, get_prop ps k) \<in> set ps"
    by (rule get_prop_in_set)
  with assms show "supported (get_prop ps k)"
    by (auto simp: supported_def list_all_iff)
qed

lemma value_start_not_close: "value_start c \<Longrightarrow> c \<noteq> 0x5D \<and> c \<noteq> 0x7D \<and> c \<noteq> 0x2C"
  by (auto simp: value_start_def prim_start_def is_digit_def)

lemma prim_start_not_open: "prim_start c \<Longrightarrow> c \<noteq> 0x5B \<and> c \<noteq> 0x7B"
  by (auto simp: prim_start_def is_digit_def)

lemma list_all2_same:
  "list_all2 (\<lambda>a b. a = b \<and> Q a b) xs ys \<Longrightarrow> xs = ys \<and> (\<forall>a \<in> set xs. Q a a)"
  by (induction rule: list_all2_induct) auto

lemma canonicalize_prefix_inject:
  assumes "canonicalize v1 @ r1 = canonicalize v2 @ r2" "supported v1" "supported v2"
    "delimited r1" "delimited r2"
  shows "sem_equal v1 v2 \<and> r1 = r2"
  using assms
proof (induction "vsize v1" arbitrary: v1 v2 r1 r2 rule: less_induct)
  case less
  note eq = less.prems(1) and s1 = less.prems(2) and s2 = less.prems(3)
    and d1 = less.prems(4) and d2 = less.prems(5)
  from s1 s2 have f1: "finite_numbers v1" and f2: "finite_numbers v2"
    by (simp_all add: supported_def)
  have prim_open: False
    if "JSON_stringify p @ t = c # t'" "finite_numbers (Prim p)" "c = 0x5B \<or> c = 0x7B" for p t c t'
  proof -
    from JSON_stringify_start [OF that(2)] obtain c' rest where
      "JSON_stringify p = c' # rest" "prim_start c'"
      by blast
    with that(1,3) prim_start_not_open [of c'] show False by auto
  qed
  show ?case
  proof (cases v1)
    case p: (Prim p)
    show ?thesis
    proof (cases v2)
      case (Prim q)
      with eq p s1 s2 JSON_stringify_inject [of p r1 q r2] d1 d2 show ?thesis
        by (auto intro: sem_equal.prim)
    next
      case (Array ys)
      from eq p have "JSON_stringify p @ r1 = 0x5B # join [0x2C] (map canonicalize ys) @ [0x5D] @ r2"
        unfolding Array canonicalize_Array_text by simp
      from prim_open [OF this] f1 p show ?thesis by simp
    next
      case (Object qs)
      from eq p have "JSON_stringify p @ r1 =
          0x7B # join [0x2C] (map (entry_text qs) (Array_sort (Object_keys qs))) @ [0x7D] @ r2"
        unfolding Object canonicalize_Object_text by simp
      from prim_open [OF this] f1 p show ?thesis by simp
    qed
  next
    case a: (Array xs)
    show ?thesis
    proof (cases v2)
      case (Prim q)
      from eq Prim have "JSON_stringify q @ r2 = 0x5B # join [0x2C] (map canonicalize xs) @ [0x5D] @ r1"
        unfolding a canonicalize_Array_text by simp
      from prim_open [OF this] f2 Prim show ?thesis by simp
    next
      case (Array ys)
      from eq have "join [0x2C] (map canonicalize xs) @ 0x5D # r1
          = join [0x2C] (map canonicalize ys) @ 0x5D # r2"
        unfolding a Array canonicalize_Array_text by simp
      then have "list_all2 sem_equal xs ys \<and> r1 = r2"
      proof (rule seq_inject)
        show "(0x5D :: code_unit) = 0x5D \<or> (0x5D :: code_unit) = 0x7D" by simp
      next
        fix x y t1 t2
        assume x: "x \<in> set xs" and y: "y \<in> set ys" and e: "canonicalize x @ t1 = canonicalize y @ t2"
          and t: "delimited t1" "delimited t2"
        from x have "vsize x \<le> sum_list (map vsize xs)"
          by (rule elem_le_sum_list_map)
        then have "vsize x < vsize v1"
          by (simp add: a)
        moreover from s1 x have "supported x"
          unfolding a by (rule supported_Array)
        moreover from s2 y have "supported y"
          unfolding Array by (rule supported_Array)
        ultimately show "sem_equal x y \<and> t1 = t2"
          using e t by (intro less.hyps)
      next
        fix x assume "x \<in> set xs"
        with s1 have "finite_numbers x"
          unfolding a by (auto simp: supported_def list_all_iff)
        from canonicalize_start [OF this] value_start_not_close
        show "\<exists>c rest. canonicalize x = c # rest \<and> c \<noteq> 0x5D"
          by blast
      next
        fix y assume "y \<in> set ys"
        with s2 have "finite_numbers y"
          unfolding Array by (auto simp: supported_def list_all_iff)
        from canonicalize_start [OF this] value_start_not_close
        show "\<exists>c rest. canonicalize y = c # rest \<and> c \<noteq> 0x5D"
          by blast
      qed
      with a Array show ?thesis
        by (auto intro: sem_equal.array)
    next
      case (Object qs)
      from eq show ?thesis
        unfolding a Object canonicalize_Array_text canonicalize_Object_text by simp
    qed
  next
    case o: (Object ps)
    show ?thesis
    proof (cases v2)
      case (Prim q)
      from eq Prim have "JSON_stringify q @ r2 =
          0x7B # join [0x2C] (map (entry_text ps) (Array_sort (Object_keys ps))) @ [0x7D] @ r1"
        unfolding o canonicalize_Object_text by simp
      from prim_open [OF this] f2 Prim show ?thesis by simp
    next
      case (Array ys)
      from eq show ?thesis
        unfolding o Array canonicalize_Array_text canonicalize_Object_text by simp
    next
      case (Object qs)
      let ?ks1 = "Array_sort (Object_keys ps)" and ?ks2 = "Array_sort (Object_keys qs)"
      from eq have "join [0x2C] (map (entry_text ps) ?ks1) @ 0x7D # r1
          = join [0x2C] (map (entry_text qs) ?ks2) @ 0x7D # r2"
        unfolding o Object canonicalize_Object_text by simp
      then have "list_all2 (\<lambda>k1 k2. k1 = k2 \<and> sem_equal (get_prop ps k1) (get_prop qs k2)) ?ks1 ?ks2
          \<and> r1 = r2"
      proof (rule seq_inject)
        show "(0x7D :: code_unit) = 0x5D \<or> (0x7D :: code_unit) = 0x7D" by simp
      next
        fix k1 k2 t1 t2
        assume k1: "k1 \<in> set ?ks1" and k2: "k2 \<in> set ?ks2"
          and e: "entry_text ps k1 @ t1 = entry_text qs k2 @ t2"
          and t: "delimited t1" "delimited t2"
        from e have "QuoteJSONString k1 @ (0x3A # canonicalize (get_prop ps k1) @ t1)
            = QuoteJSONString k2 @ (0x3A # canonicalize (get_prop qs k2) @ t2)"
          by (simp add: entry_text_def)
        note inj = QuoteJSONString_inject [OF this]
        from inj have k: "k1 = k2"
          by (rule conjunct1)
        from inj have e': "canonicalize (get_prop ps k1) @ t1 = canonicalize (get_prop qs k2) @ t2"
          by (elim conjE) (simp only: list.inject)
        from k1 have k1': "k1 \<in> set (Object_keys ps)"
          by (simp add: Array_sort_def)
        from k2 have k2': "k2 \<in> set (Object_keys qs)"
          by (simp add: Array_sort_def)
        from k1' have "vsize (get_prop ps k1) < vsize v1"
          unfolding o by (rule get_prop_vsize)
        moreover from s1 k1' have "supported (get_prop ps k1)"
          unfolding o by (rule supported_Object(2))
        moreover from s2 k2' have "supported (get_prop qs k2)"
          unfolding Object by (rule supported_Object(2))
        ultimately have "sem_equal (get_prop ps k1) (get_prop qs k2) \<and> t1 = t2"
          using e' t by (intro less.hyps)
        with k show "(k1 = k2 \<and> sem_equal (get_prop ps k1) (get_prop qs k2)) \<and> t1 = t2"
          by simp
      next
        fix k assume "k \<in> set ?ks1"
        show "\<exists>c rest. entry_text ps k = c # rest \<and> c \<noteq> 0x7D"
          by (simp add: entry_text_def QuoteJSONString_def)
      next
        fix k assume "k \<in> set ?ks2"
        show "\<exists>c rest. entry_text qs k = c # rest \<and> c \<noteq> 0x7D"
          by (simp add: entry_text_def QuoteJSONString_def)
      qed
      then have all: "list_all2 (\<lambda>k1 k2. k1 = k2 \<and> sem_equal (get_prop ps k1) (get_prop qs k2)) ?ks1 ?ks2"
        and r: "r1 = r2"
        by simp_all
      from list_all2_same [OF all] have ks: "?ks1 = ?ks2"
        and vals: "\<And>k. k \<in> set ?ks1 \<Longrightarrow> sem_equal (get_prop ps k) (get_prop qs k)"
        by simp_all
      from ks have "set ?ks1 = set ?ks2" by simp
      then have sets: "set (Object_keys ps) = set (Object_keys qs)"
        by (simp add: Array_sort_def)
      from s1 have "distinct (Object_keys ps)"
        unfolding o by (rule supported_Object(1))
      moreover from s2 have "distinct (Object_keys qs)"
        unfolding Object by (rule supported_Object(1))
      moreover have "\<forall>k \<in> set (Object_keys ps). sem_equal (get_prop ps k) (get_prop qs k)"
        using vals by (simp add: Array_sort_def)
      ultimately have "sem_equal (Object ps) (Object qs)"
        using sets by (intro sem_equal.object)
      with r o Object show ?thesis by simp
    qed
  qed
qed

text \<open>
  C2. The supported values are null, the booleans, the finite numbers, the strings, and
  the arrays and objects of supported values. For two supported values the canonical
  strings are equal if and only if the values are semantically equal: the same
  primitives, the same elements in the same order, the same keys bound to equal values
  in whatever order. Numbers are compared as numbers, so that the two zeros, which
  \<open>===\<close> does not tell apart, are one number; every other pair of distinct doubles has
  distinct texts.
\<close>

theorem canonicalize_faithful:
  assumes "supported v1" "supported v2"
  shows "canonicalize v1 = canonicalize v2 \<longleftrightarrow> sem_equal v1 v2"
proof
  assume "canonicalize v1 = canonicalize v2"
  then have "canonicalize v1 @ [] = canonicalize v2 @ []"
    by simp
  from canonicalize_prefix_inject [OF this assms] show "sem_equal v1 v2"
    by (simp add: delimited_def)
next
  assume "sem_equal v1 v2"
  then show "canonicalize v1 = canonicalize v2"
    by (rule sem_equal_canonicalize)
qed

text \<open>
  The values \<open>{b: [-0, 1.5], a: "x"}\<close> and \<open>{a: "x", b: [0, 1.5]}\<close> have the same
  canonical string and are semantically equal; \<open>{a: "x", b: [0, 15]}\<close> has another
  canonical string and is not equal to them.
\<close>

theorem canonicalize_faithful_witness:
  "supported (Object [(ascii ''b'', Array [Prim (Number (Finite True 0 (- 1074))),
                                           Prim (Number (Finite False (3 * 2 ^ 51) (- 52)))]),
                      (ascii ''a'', Prim (String (ascii ''x'')))])
   \<and> supported (Object [(ascii ''a'', Prim (String (ascii ''x''))),
                        (ascii ''b'', Array [Prim (Number (Finite False 0 (- 1074))),
                                             Prim (Number (Finite False (3 * 2 ^ 51) (- 52)))])])
   \<and> supported (Object [(ascii ''a'', Prim (String (ascii ''x''))),
                        (ascii ''b'', Array [Prim (Number (Finite False 0 (- 1074))),
                                             Prim (Number (Finite False (15 * 2 ^ 49) (- 49)))])])
   \<and> sem_equal
        (Object [(ascii ''b'', Array [Prim (Number (Finite True 0 (- 1074))),
                                      Prim (Number (Finite False (3 * 2 ^ 51) (- 52)))]),
                 (ascii ''a'', Prim (String (ascii ''x'')))])
        (Object [(ascii ''a'', Prim (String (ascii ''x''))),
                 (ascii ''b'', Array [Prim (Number (Finite False 0 (- 1074))),
                                      Prim (Number (Finite False (3 * 2 ^ 51) (- 52)))])])
   \<and> \<not> sem_equal
        (Object [(ascii ''b'', Array [Prim (Number (Finite True 0 (- 1074))),
                                      Prim (Number (Finite False (3 * 2 ^ 51) (- 52)))]),
                 (ascii ''a'', Prim (String (ascii ''x'')))])
        (Object [(ascii ''a'', Prim (String (ascii ''x''))),
                 (ascii ''b'', Array [Prim (Number (Finite False 0 (- 1074))),
                                      Prim (Number (Finite False (15 * 2 ^ 49) (- 49)))])])"
proof -
  let ?v1 = "Object [(ascii ''b'', Array [Prim (Number (Finite True 0 (- 1074))),
                                         Prim (Number (Finite False (3 * 2 ^ 51) (- 52)))]),
                    (ascii ''a'', Prim (String (ascii ''x'')))]"
  let ?v2 = "Object [(ascii ''a'', Prim (String (ascii ''x''))),
                    (ascii ''b'', Array [Prim (Number (Finite False 0 (- 1074))),
                                         Prim (Number (Finite False (3 * 2 ^ 51) (- 52)))])]"
  let ?v3 = "Object [(ascii ''a'', Prim (String (ascii ''x''))),
                    (ascii ''b'', Array [Prim (Number (Finite False 0 (- 1074))),
                                         Prim (Number (Finite False (15 * 2 ^ 49) (- 49)))])]"
  have s1: "supported ?v1" and s2: "supported ?v2" and s3: "supported ?v3"
    by (simp_all add: supported_def Object_keys_def ascii_def is_double_def)
  have c1: "canonicalize ?v1 = canonicalize ?v2"
    by (simp add: Array_sort_def Object_keys_def get_prop_def QuoteJSONString_def ascii_def
        Number_toString_zero Number_toString_examples is_high_surrogate_def
        is_low_surrogate_def)
  have c3: "canonicalize ?v1 \<noteq> canonicalize ?v3"
    by (simp add: Array_sort_def Object_keys_def get_prop_def QuoteJSONString_def ascii_def
        Number_toString_zero Number_toString_examples is_high_surrogate_def
        is_low_surrogate_def)
  from c1 canonicalize_faithful [OF s1 s2] have "sem_equal ?v1 ?v2"
    by simp
  moreover from c3 canonicalize_faithful [OF s1 s3] have "\<not> sem_equal ?v1 ?v3"
    by simp
  ultimately show ?thesis
    using s1 s2 s3 by simp
qed

section \<open>deepClone of values without the key __proto__\<close>

lemma extends_refl: "extends h h"
  by (simp add: extends_def)

lemma extends_trans: "extends h1 h2 \<Longrightarrow> extends h2 h3 \<Longrightarrow> extends h1 h3"
  by (auto simp: extends_def)

lemma extends_lookup: "extends h h' \<Longrightarrow> a < length h \<Longrightarrow> lookup h' a = lookup h a"
  by (auto simp: extends_def lookup_def)

lemma denotes_extends:
  assumes "denotes h v t" "extends h h'"
  shows "denotes h' v t"
  using assms(1)
proof (rule denotes_agree)
  fix a assume "a \<in> reach h v"
  with assms(1) have "a < length h"
    by (rule denotes_valid)
  with assms(2) show "lookup h' a = lookup h a"
    by (rule extends_lookup)
qed

lemma reach_agree:
  assumes "\<And>b. b \<in> reach h v \<Longrightarrow> lookup h2 b = lookup h b"
  shows "reach h2 v = reach h v"
proof (intro set_eqI iffI)
  fix a assume "a \<in> reach h2 v"
  then show "a \<in> reach h v"
  proof (induction rule: reach.induct)
    case (root a)
    then show ?case by (rule reach.root)
  next
    case (step a c b)
    from assms [OF step.IH] step.hyps(2) have "lookup h a = Some c"
      by simp
    with step.IH show ?case
      using step.hyps(3) by (rule reach.step)
  qed
next
  fix a assume "a \<in> reach h v"
  then show "a \<in> reach h2 v"
  proof (induction rule: reach.induct)
    case (root a)
    then show ?case by (rule reach.root)
  next
    case (step a c b)
    from assms [OF step.hyps(1)] step.hyps(2) have "lookup h2 a = Some c"
      by simp
    with step.IH show ?case
      using step.hyps(3) by (rule reach.step)
  qed
qed

lemma fold_option_map: "fold_option g (map f xs) s = fold_option (\<lambda>x. g (f x)) xs s"
  by (induction xs arbitrary: s) (auto split: Option.bind_splits intro: arg_cong)

lemma clone_ok_agree:
  assumes "clone_ok h m r t" "length h \<le> length h'"
    and "\<And>b. m < b \<Longrightarrow> b < length h \<Longrightarrow> h' ! b = h ! b"
  shows "clone_ok h' m r t"
proof -
  from assms(1) have d: "denotes h r t"
    and fr: "\<And>b. b \<in> reach h r \<Longrightarrow> m < b \<and> b < length h \<and> \<not> frozen (h ! b)"
    by (simp_all add: clone_ok_def)
  have agree: "lookup h' b = lookup h b" if "b \<in> reach h r" for b
    using fr [OF that] assms(2) assms(3) [of b] by (simp add: lookup_def)
  from d agree have "denotes h' r t"
    by (rule denotes_agree)
  moreover from agree have "reach h' r = reach h r"
    by (rule reach_agree)
  moreover have "m < b \<and> b < length h' \<and> \<not> frozen (h' ! b)" if "b \<in> reach h r" for b
    using fr [OF that] assms(2) assms(3) [of b] by simp
  ultimately show ?thesis
    by (simp add: clone_ok_def)
qed

lemma clone_fold:
  fixes src :: "'x \<Rightarrow> ref_value" and tr :: "'x \<Rightarrow> jsvalue"
    and store :: "heap \<Rightarrow> 'x \<Rightarrow> ref_value \<Rightarrow> heap"
    and cellc :: "'x list \<Rightarrow> ref_value list \<Rightarrow> container"
  assumes clone: "\<And>x h1. x \<in> set todo \<Longrightarrow> denotes h1 (src x) (tr x) \<Longrightarrow>
      \<exists>h2 r. deepClone h1 (src x) = Some (h2, r) \<and> extends h1 h2 \<and> denotes h2 r (tr x) \<and>
        fresh_in h1 h2 r"
    and src: "\<And>x. x \<in> set todo \<Longrightarrow> denotes h (src x) (tr x)"
    and store: "\<And>pre x rs r h'. x \<notin> set pre \<Longrightarrow> x \<in> set todo \<Longrightarrow> m < length h' \<Longrightarrow>
      h' ! m = \<lparr>frozen = False, contents = cellc pre rs\<rparr> \<Longrightarrow> length rs = length pre \<Longrightarrow>
      store h' x r = h'[m := \<lparr>frozen = False, contents = cellc (pre @ [x]) (rs @ [r])\<rparr>]"
    and dist: "distinct (pre @ todo)"
    and ext: "extends h h1" and m: "length h \<le> m" "m < length h1"
    and cell: "h1 ! m = \<lparr>frozen = False, contents = cellc pre rs\<rparr>"
    and made: "list_all2 (\<lambda>x r. clone_ok h1 m r (tr x)) pre rs"
  shows "\<exists>hn rsn.
      fold_option
        (\<lambda>x h'. Option.bind (deepClone h' (src x)) (\<lambda>r. Some (store (fst r) x (snd r))))
        todo h1 = Some hn \<and>
      extends h hn \<and> m < length hn \<and>
      hn ! m = \<lparr>frozen = False, contents = cellc (pre @ todo) rsn\<rparr> \<and>
      list_all2 (\<lambda>x r. clone_ok hn m r (tr x)) (pre @ todo) rsn"
  using clone src store dist ext m(2) cell made
proof (induction todo arbitrary: pre rs h1)
  case Nil
  then have "fold_option
        (\<lambda>x h'. Option.bind (deepClone h' (src x)) (\<lambda>r. Some (store (fst r) x (snd r))))
        [] h1 = Some h1 \<and>
      extends h h1 \<and> m < length h1 \<and>
      h1 ! m = \<lparr>frozen = False, contents = cellc (pre @ []) rs\<rparr> \<and>
      list_all2 (\<lambda>x r. clone_ok h1 m r (tr x)) (pre @ []) rs"
    by simp
  then show ?case by blast
next
  case (Cons x todo')
  note ext1 = Cons.prems(5) and m1 = Cons.prems(6) and cell1 = Cons.prems(7)
    and made1 = Cons.prems(8)
  from Cons.prems(2) [of x] ext1 have "denotes h1 (src x) (tr x)"
    by (simp add: denotes_extends)
  from Cons.prems(1) [OF _ this] obtain h2 r where
    c: "deepClone h1 (src x) = Some (h2, r)" and e12: "extends h1 h2"
    and d2: "denotes h2 r (tr x)" and f2: "fresh_in h1 h2 r"
    by auto
  from e12 m1 have m2: "m < length h2" and cell2: "h2 ! m = h1 ! m"
    by (simp_all add: extends_def)
  from made1 have len: "length rs = length pre"
    by (simp add: list_all2_lengthD)
  from Cons.prems(4) have xpre: "x \<notin> set pre"
    by simp
  let ?h3 = "h2[m := \<lparr>frozen = False, contents = cellc (pre @ [x]) (rs @ [r])\<rparr>]"
  have st: "store h2 x r = ?h3"
    using xpre _ m2 _ len by (rule Cons.prems(3)) (simp_all add: cell2 cell1)
  have ext3: "extends h ?h3"
    using ext1 e12 m(1) by (auto simp: extends_def)
  have m3: "m < length ?h3"
    using m2 by simp
  have cell3: "?h3 ! m = \<lparr>frozen = False, contents = cellc (pre @ [x]) (rs @ [r])\<rparr>"
    using m2 by simp
  have old: "clone_ok ?h3 m r' t'" if "clone_ok h1 m r' t'" for r' t'
    using that
  proof (rule clone_ok_agree)
    show "length h1 \<le> length ?h3"
      using e12 by (simp add: extends_def)
  next
    fix b assume "m < b" "b < length h1"
    with e12 show "?h3 ! b = h1 ! b"
      by (simp add: extends_def)
  qed
  have new: "clone_ok ?h3 m r (tr x)"
  proof -
    from d2 f2 m1 have "clone_ok h2 m r (tr x)"
      by (auto simp: clone_ok_def fresh_in_def)
    then show ?thesis
    proof (rule clone_ok_agree)
      show "length h2 \<le> length ?h3" by simp
    next
      fix b assume "m < b" "b < length h2"
      then show "?h3 ! b = h2 ! b" by simp
    qed
  qed
  have "list_all2 (\<lambda>x r. clone_ok ?h3 m r (tr x)) pre rs"
    using made1 by (rule list_all2_mono) (rule old)
  moreover have "list_all2 (\<lambda>x r. clone_ok ?h3 m r (tr x)) [x] [r]"
    using new by simp
  ultimately have made3: "list_all2 (\<lambda>x r. clone_ok ?h3 m r (tr x)) (pre @ [x]) (rs @ [r])"
    by (rule list_all2_appendI)
  have "\<exists>hn rsn.
      fold_option
        (\<lambda>x h'. Option.bind (deepClone h' (src x)) (\<lambda>r. Some (store (fst r) x (snd r))))
        todo' ?h3 = Some hn \<and>
      extends h hn \<and> m < length hn \<and>
      hn ! m = \<lparr>frozen = False, contents = cellc ((pre @ [x]) @ todo') rsn\<rparr> \<and>
      list_all2 (\<lambda>x r. clone_ok hn m r (tr x)) ((pre @ [x]) @ todo') rsn"
  proof (rule Cons.IH [OF _ _ _ _ ext3 m3 cell3 made3])
    fix y h1'
    assume "y \<in> set todo'" "denotes h1' (src y) (tr y)"
    then show "\<exists>h2 r. deepClone h1' (src y) = Some (h2, r) \<and> extends h1' h2 \<and>
        denotes h2 r (tr y) \<and> fresh_in h1' h2 r"
      by (intro Cons.prems(1)) simp_all
  next
    fix y assume "y \<in> set todo'"
    then show "denotes h (src y) (tr y)"
      by (intro Cons.prems(2)) simp
  next
    fix pre' y rs' r' h'
    assume "y \<notin> set pre'" "y \<in> set todo'" "m < length h'"
      "h' ! m = \<lparr>frozen = False, contents = cellc pre' rs'\<rparr>" "length rs' = length pre'"
    then show "store h' y r' = h'[m := \<lparr>frozen = False, contents = cellc (pre' @ [y]) (rs' @ [r'])\<rparr>]"
      by (intro Cons.prems(3)) simp_all
  next
    from Cons.prems(4) show "distinct ((pre @ [x]) @ todo')"
      by simp
  qed
  with c st show ?case
    by simp
qed

lemma put_prop_fresh: "k \<notin> fst ` set ps \<Longrightarrow> put_prop ps k v = ps @ [(k, v)]"
  by (induction ps) auto

lemma array_append_cell:
  assumes "m < length h'" "h' ! m = \<lparr>frozen = False, contents = ArrayC rs\<rparr>"
  shows "array_append h' m r = h'[m := \<lparr>frozen = False, contents = ArrayC (rs @ [r])\<rparr>]"
  using assms by (simp add: array_append_def lookup_def)

lemma assign_prop_cell:
  assumes "m < length h'" "h' ! m = \<lparr>frozen = False, contents = ObjectC (zip pre rs)\<rparr>"
    "length rs = length pre" "k \<notin> set pre" "k \<noteq> proto_key"
  shows "assign_prop h' m k r =
      h'[m := \<lparr>frozen = False, contents = ObjectC (zip (pre @ [k]) (rs @ [r]))\<rparr>]"
proof -
  from assms(3,4) have "k \<notin> fst ` set (zip pre rs)"
    by (auto dest: set_zip_leftD)
  then have "put_prop (zip pre rs) k r = zip pre rs @ [(k, r)]"
    by (rule put_prop_fresh)
  with assms show ?thesis
    by (simp add: assign_prop_def lookup_def)
qed

lemma plain_keys_get_prop:
  assumes "plain_keys (Object tprops)" "k \<in> set (Object_keys tprops)"
  shows "plain_keys (get_prop tprops k)"
proof -
  from assms(2) have "(k, get_prop tprops k) \<in> set tprops"
    by (rule get_prop_in_set)
  with assms(1) show ?thesis
    by (auto simp: list_all_iff)
qed

lemma deepClone_copies:
  assumes "denotes h v t" "plain_keys t"
  shows "\<exists>h' r. deepClone h v = Some (h', r) \<and> extends h h' \<and> denotes h' r t \<and> fresh_in h h' r"
  using assms
proof (induction "vsize t" arbitrary: h v t rule: less_induct)
  case less
  show ?case
  proof (cases v)
    case (PrimV p)
    with less.prems(1) have "deepClone h v = Some (h, v) \<and> extends h h \<and> denotes h v t \<and>
        fresh_in h h v"
      by (simp add: deepClone_PrimV extends_refl fresh_in_def reach_PrimV)
    then show ?thesis by blast
  next
    case (Ref a)
    let ?m = "length h"
    from less.prems(1) [unfolded Ref] show ?thesis
    proof (cases rule: denotes.cases)
      case (array c elems ts)
      let ?h0 = "h @ [\<lparr>frozen = False, contents = ArrayC []\<rparr>]"
      let ?n = "length elems"
      from list_all2_lengthD [OF array(4)] have len: "length ts = ?n"
        by simp
      have "\<exists>hn rsn.
          fold_option
            (\<lambda>i h'. Option.bind (deepClone h' (elems ! i))
               (\<lambda>r. Some (array_append (fst r) ?m (snd r))))
            [0 ..< ?n] ?h0 = Some hn \<and>
          extends h hn \<and> ?m < length hn \<and>
          hn ! ?m = \<lparr>frozen = False, contents = ArrayC rsn\<rparr> \<and>
          list_all2 (\<lambda>i r. clone_ok hn ?m r (ts ! i)) ([] @ [0 ..< ?n]) rsn"
      proof (rule clone_fold [where cellc = "\<lambda>pre rs. ArrayC rs" and rs = "[]" and h = h])
        fix i h1
        assume i: "i \<in> set [0 ..< ?n]" and d: "denotes h1 (elems ! i) (ts ! i)"
        from i len have "ts ! i \<in> set ts" by simp
        then have "vsize (ts ! i) \<le> sum_list (map vsize ts)"
          by (rule elem_le_sum_list_map)
        then have "vsize (ts ! i) < vsize t"
          by (simp add: array(1))
        moreover from less.prems(2) \<open>ts ! i \<in> set ts\<close> have "plain_keys (ts ! i)"
          by (simp add: array(1) list_all_iff)
        ultimately show "\<exists>h2 r. deepClone h1 (elems ! i) = Some (h2, r) \<and> extends h1 h2 \<and>
            denotes h2 r (ts ! i) \<and> fresh_in h1 h2 r"
          using d by (intro less.hyps)
      next
        fix i assume "i \<in> set [0 ..< ?n]"
        with array(4) show "denotes h (elems ! i) (ts ! i)"
          by (simp add: list_all2_conv_all_nth)
      next
        fix pre :: "nat list" and i rs r h'
        assume "?m < length h'" "h' ! ?m = \<lparr>frozen = False, contents = ArrayC rs\<rparr>"
        then show "array_append h' ?m r = h'[?m := \<lparr>frozen = False, contents = ArrayC (rs @ [r])\<rparr>]"
          by (rule array_append_cell)
      qed (simp_all add: extends_def nth_append)
      then obtain hn rsn where
        fold: "fold_option
            (\<lambda>i h'. Option.bind (deepClone h' (elems ! i))
               (\<lambda>r. Some (array_append (fst r) ?m (snd r))))
            [0 ..< ?n] ?h0 = Some hn"
        and ext: "extends h hn" and m: "?m < length hn"
        and cell: "hn ! ?m = \<lparr>frozen = False, contents = ArrayC rsn\<rparr>"
        and made: "list_all2 (\<lambda>i r. clone_ok hn ?m r (ts ! i)) [0 ..< ?n] rsn"
        by auto
      have "fold_option
            (\<lambda>item h'. Option.bind (deepClone h' item)
               (\<lambda>r. Some (array_append (fst r) ?m (snd r))))
            (map ((!) elems) [0 ..< ?n]) ?h0 = Some hn"
        using fold by (simp add: fold_option_map)
      then have "fold_option
            (\<lambda>item h'. Option.bind (deepClone h' item)
               (\<lambda>r. Some (array_append (fst r) ?m (snd r))))
            elems ?h0 = Some hn"
        by (simp add: map_nth)
      with array(2,3) have res: "deepClone h (Ref a) = Some (hn, Ref ?m)"
        by (simp add: deepClone_Ref allocate_def)
      from list_all2_lengthD [OF made] have lr: "length rsn = ?n"
        by simp
      from made have ok: "clone_ok hn ?m (rsn ! i) (ts ! i)" if "i < ?n" for i
        using that by (simp add: list_all2_conv_all_nth)
      have "list_all2 (denotes hn) rsn ts"
        using ok lr len by (simp add: list_all2_conv_all_nth clone_ok_def)
      with m cell have d: "denotes hn (Ref ?m) (Array ts)"
        by (intro denotes.array [of hn ?m "\<lparr>frozen = False, contents = ArrayC rsn\<rparr>" rsn])
           (simp_all add: lookup_def)
      have "fresh_in h hn (Ref ?m)"
        unfolding fresh_in_def
      proof
        fix b assume "b \<in> reach hn (Ref ?m)"
        from reach_Ref_cases [OF this]
        show "?m \<le> b \<and> b < length hn \<and> \<not> frozen (hn ! b)"
        proof
          assume "b = ?m"
          with m cell show ?thesis by simp
        next
          assume "\<exists>c x. lookup hn ?m = Some c \<and> x \<in> set (prop_values (contents c)) \<and> b \<in> reach hn x"
          with m cell obtain x where "x \<in> set rsn" "b \<in> reach hn x"
            by (auto simp: lookup_def)
          then obtain i where "i < ?n" "x = rsn ! i"
            using lr by (auto simp: in_set_conv_nth)
          with ok [of i] \<open>b \<in> reach hn x\<close> show ?thesis
            by (auto simp: clone_ok_def)
        qed
      qed
      with res ext d array(1) Ref have "deepClone h v = Some (hn, Ref ?m) \<and> extends h hn \<and>
          denotes hn (Ref ?m) t \<and> fresh_in h hn (Ref ?m)"
        by simp
      then show ?thesis by blast
    next
      case (object c props tprops)
      let ?h0 = "h @ [\<lparr>frozen = False, contents = ObjectC []\<rparr>]"
      let ?keys = "Object_keys props"
      have keys: "Object_keys tprops = ?keys"
        using object(4) by (rule keyed_list_all2_keys)
      from less.prems(2) keys have dist: "distinct ?keys" and noproto: "proto_key \<notin> set ?keys"
        by (simp_all add: object(1))
      have "\<exists>hn rsn.
          fold_option
            (\<lambda>k h'. Option.bind (deepClone h' (get_prop props k))
               (\<lambda>r. Some (assign_prop (fst r) ?m k (snd r))))
            ?keys ?h0 = Some hn \<and>
          extends h hn \<and> ?m < length hn \<and>
          hn ! ?m = \<lparr>frozen = False, contents = ObjectC (zip ([] @ ?keys) rsn)\<rparr> \<and>
          list_all2 (\<lambda>k r. clone_ok hn ?m r (get_prop tprops k)) ([] @ ?keys) rsn"
      proof (rule clone_fold [where cellc = "\<lambda>pre rs. ObjectC (zip pre rs)" and rs = "[]" and h = h])
        fix k h1
        assume k: "k \<in> set ?keys" and d: "denotes h1 (get_prop props k) (get_prop tprops k)"
        from k keys have "vsize (get_prop tprops k) < vsize (Object tprops)"
          by (intro get_prop_vsize) simp
        then have "vsize (get_prop tprops k) < vsize t"
          by (simp add: object(1))
        moreover from less.prems(2) k keys have "plain_keys (get_prop tprops k)"
          unfolding object(1) by (intro plain_keys_get_prop) simp_all
        ultimately show "\<exists>h2 r. deepClone h1 (get_prop props k) = Some (h2, r) \<and> extends h1 h2 \<and>
            denotes h2 r (get_prop tprops k) \<and> fresh_in h1 h2 r"
          using d by (intro less.hyps)
      next
        fix k assume "k \<in> set ?keys"
        from keyed_list_all2_get_prop [OF object(4) this]
        show "denotes h (get_prop props k) (get_prop tprops k)" .
      next
        fix pre k rs r h'
        assume "k \<notin> set pre" "k \<in> set ?keys" "?m < length h'"
          "h' ! ?m = \<lparr>frozen = False, contents = ObjectC (zip pre rs)\<rparr>" "length rs = length pre"
        with noproto show "assign_prop h' ?m k r =
            h'[?m := \<lparr>frozen = False, contents = ObjectC (zip (pre @ [k]) (rs @ [r]))\<rparr>]"
          by (intro assign_prop_cell) auto
      qed (simp_all add: extends_def nth_append dist)
      then obtain hn rsn where
        fold: "fold_option
            (\<lambda>k h'. Option.bind (deepClone h' (get_prop props k))
               (\<lambda>r. Some (assign_prop (fst r) ?m k (snd r))))
            ?keys ?h0 = Some hn"
        and ext: "extends h hn" and m: "?m < length hn"
        and cell: "hn ! ?m = \<lparr>frozen = False, contents = ObjectC (zip ?keys rsn)\<rparr>"
        and made: "list_all2 (\<lambda>k r. clone_ok hn ?m r (get_prop tprops k)) ?keys rsn"
        by auto
      from fold object(2,3) have res: "deepClone h (Ref a) = Some (hn, Ref ?m)"
        by (simp add: deepClone_Ref allocate_def)
      from list_all2_lengthD [OF made] have lr: "length rsn = length ?keys"
        by simp
      from made have ok: "clone_ok hn ?m (rsn ! i) (get_prop tprops (?keys ! i))"
        if "i < length ?keys" for i
        using that by (simp add: list_all2_conv_all_nth)
      have zkeys: "Object_keys (zip ?keys rsn) = ?keys"
        using lr by (simp add: Object_keys_def)
      have zget: "get_prop (zip ?keys rsn) (?keys ! i) = rsn ! i" if "i < length ?keys" for i
        using that lr dist by (simp add: get_prop_def map_of_zip_nth)
      from list_all2_lengthD [OF object(4)] have lt: "length tprops = length ?keys"
        by simp
      have tfst: "fst (tprops ! i) = ?keys ! i" if "i < length ?keys" for i
        using that object(4) by (simp add: list_all2_conv_all_nth)
      have tsnd: "snd (tprops ! i) = get_prop tprops (?keys ! i)" if "i < length ?keys" for i
      proof -
        from that lt have "tprops ! i \<in> set tprops" by simp
        then have "(?keys ! i, snd (tprops ! i)) \<in> set tprops"
          using tfst [OF that] by (metis prod.collapse)
        moreover from dist keys have "distinct (map fst tprops)"
          by (simp add: Object_keys_def)
        ultimately have "map_of tprops (?keys ! i) = Some (snd (tprops ! i))"
          by (intro map_of_is_SomeI)
        then show ?thesis
          by (simp add: get_prop_def)
      qed
      have "list_all2 (\<lambda>k kt. fst kt = k \<and> denotes hn (get_prop (zip ?keys rsn) k) (snd kt))
          (Object_keys (zip ?keys rsn)) tprops"
        unfolding zkeys using ok lt tfst tsnd zget
        by (simp add: list_all2_conv_all_nth clone_ok_def)
      with m cell have d: "denotes hn (Ref ?m) (Object tprops)"
        by (intro denotes.object
            [of hn ?m "\<lparr>frozen = False, contents = ObjectC (zip ?keys rsn)\<rparr>" "zip ?keys rsn"])
           (simp_all add: lookup_def)
      have "fresh_in h hn (Ref ?m)"
        unfolding fresh_in_def
      proof
        fix b assume "b \<in> reach hn (Ref ?m)"
        from reach_Ref_cases [OF this]
        show "?m \<le> b \<and> b < length hn \<and> \<not> frozen (hn ! b)"
        proof
          assume "b = ?m"
          with m cell show ?thesis by simp
        next
          assume "\<exists>c x. lookup hn ?m = Some c \<and> x \<in> set (prop_values (contents c)) \<and> b \<in> reach hn x"
          with m cell zkeys obtain k where k: "k \<in> set ?keys"
            and b: "b \<in> reach hn (get_prop (zip ?keys rsn) k)"
            by (auto simp: lookup_def)
          from k obtain i where i: "i < length ?keys" "k = ?keys ! i"
            by (auto simp: in_set_conv_nth)
          with b zget [of i] have "b \<in> reach hn (rsn ! i)"
            by simp
          with ok [OF i(1)] show ?thesis
            by (auto simp: clone_ok_def)
        qed
      qed
      with res ext d object(1) Ref have "deepClone h v = Some (hn, Ref ?m) \<and> extends h hn \<and>
          denotes hn (Ref ?m) t \<and> fresh_in h hn (Ref ?m)"
        by simp
      then show ?thesis by blast
    qed
  qed
qed

text \<open>
  Apart from the key \<open>__proto__\<close>, \<open>deepClone (deepFreeze x)\<close> is what C8 says: for a
  value \<open>x\<close> that unfolds to a tree with no such key, \<open>deepFreeze\<close> and \<open>deepClone\<close>
  return, the clone unfolds to the same tree, all its objects are new and none is frozen,
  so that a write to any of them takes effect, and no write changes \<open>x\<close>.
\<close>

lemma deepClone_deepFreeze:
  assumes "denotes h x t" "plain_keys t"
  shows "\<exists>h1 h2 r.
      deepFreeze h x = Some (h1, x) \<and> deepClone h1 x = Some (h2, r) \<and>
      denotes h2 r t \<and> denotes h2 x t \<and> fresh_in h1 h2 r \<and>
      (\<forall>a \<in> reach h2 r. \<forall>c'.
         lookup (attempt h2 (Write a c')) a = Some \<lparr>frozen = False, contents = c'\<rparr>) \<and>
      (\<forall>ws. denotes (attempts h2 ws) x t)"
proof -
  from deepFreeze_total [OF assms(1) freeze_ext_refl] obtain h1 where
    fr: "deepFreeze h x = Some (h1, x)" and ext: "freeze_ext h h1"
    and frozen: "\<And>b. b \<in> reach h x \<Longrightarrow> b < length h1 \<and> frozen (h1 ! b)"
    by blast
  from assms(1) ext have d1: "denotes h1 x t"
    by (simp add: denotes_freeze_ext)
  from deepClone_copies [OF d1 assms(2)] obtain h2 r where
    cl: "deepClone h1 x = Some (h2, r)" and e12: "extends h1 h2"
    and dr: "denotes h2 r t" and fresh: "fresh_in h1 h2 r"
    by blast
  from d1 e12 have d2: "denotes h2 x t"
    by (rule denotes_extends)
  from ext have r1: "reach h1 x = reach h x"
    by (rule reach_freeze_ext)
  have r2: "reach h2 x = reach h1 x"
  proof (rule reach_agree)
    fix b assume "b \<in> reach h1 x"
    with d1 have "b < length h1" by (rule denotes_valid)
    with e12 show "lookup h2 b = lookup h1 b" by (rule extends_lookup)
  qed
  have stay: "lookup (attempts h2 ws) b = lookup h2 b" if "b \<in> reach h2 x" for b ws
  proof -
    from that r1 r2 frozen [of b] have b: "b < length h1" "frozen (h1 ! b)"
      by simp_all
    with e12 have "lookup h2 b = Some (h2 ! b)" "frozen (h2 ! b)"
      by (simp_all add: extends_def lookup_def)
    from attempts_frozen [OF this] this(1) show ?thesis by simp
  qed
  have "denotes (attempts h2 ws) x t" for ws
    using d2 stay by (rule denotes_agree)
  moreover have "lookup (attempt h2 (Write a c')) a = Some \<lparr>frozen = False, contents = c'\<rparr>"
    if "a \<in> reach h2 r" for a c'
  proof -
    from fresh that have "a < length h2" "\<not> frozen (h2 ! a)"
      by (simp_all add: fresh_in_def)
    then show ?thesis
      by (simp add: lookup_def)
  qed
  ultimately have "deepFreeze h x = Some (h1, x) \<and> deepClone h1 x = Some (h2, r) \<and>
      denotes h2 r t \<and> denotes h2 x t \<and> fresh_in h1 h2 r \<and>
      (\<forall>a \<in> reach h2 r. \<forall>c'.
         lookup (attempt h2 (Write a c')) a = Some \<lparr>frozen = False, contents = c'\<rparr>) \<and>
      (\<forall>ws. denotes (attempts h2 ws) x t)"
    using fr cl dr d2 fresh by simp
  then show ?thesis by blast
qed

end
